theory Spec2Isabelle
  imports Complex_Main "HOL-Library.Word" "HOL-Library.Monad_Syntax"
begin

unbundle bit_operations_syntax

section \<open>Machine model\<close>

text \<open>
  The allocator of \<^verbatim>\<open>src/malloc.c\<close> is embedded over a flat memory of 64-bit cells,
  indexed by byte address; every access of the allocator is to an 8-byte aligned cell.
  Values of type \<^verbatim>\<open>size_t\<close>, \<^verbatim>\<open>uintptr_t\<close> and \<^verbatim>\<open>uint64_t\<close> are natural numbers
  with the wrap-around modulo \<open>2 ^ 64\<close> written out.  A result \<open>None\<close> stands for a run
  without a defined result: a traversal of a bucket that never meets its sentinel, or a
  shift by at least the width of the operand (undefined in C).
\<close>

definition u64 :: "nat \<Rightarrow> nat" where
  "u64 x = x mod 2 ^ 64"

definition add64 :: "nat \<Rightarrow> nat \<Rightarrow> nat" where
  "add64 a b = (a + b) mod 2 ^ 64"

definition sub64 :: "nat \<Rightarrow> nat \<Rightarrow> nat" where
  "sub64 a b = (a + (2 ^ 64 - b mod 2 ^ 64)) mod 2 ^ 64"

definition MEM_UNIT :: nat where "MEM_UNIT = 8"
definition LOG2_NUM_MAPPINGS :: nat where "LOG2_NUM_MAPPINGS = 15"
definition METADATA_OFFSET :: nat where "METADATA_OFFSET = 8"
definition sizeof_header_t :: nat where "sizeof_header_t = 24"
definition sizeof_footer_t :: nat where "sizeof_footer_t = 8"
definition MIN_ALLOC :: nat where "MIN_ALLOC = sizeof_header_t + sizeof_footer_t"
definition NUM_BUCKETS :: nat where "NUM_BUCKETS = 166"
definition NULL :: nat where "NULL = 0"
definition EINVAL :: nat where "EINVAL = 22"
definition ENOMEM :: nat where "ENOMEM = 12"

text \<open>
  The environment of a facade call: the page size reported by \<^verbatim>\<open>sysconf\<close>, the address
  of the static array \<^verbatim>\<open>buckets\<close>, and the answer of \<^verbatim>\<open>mmap\<close> to a request of a given
  length (\<open>None\<close> is \<^verbatim>\<open>MAP_FAILED\<close>).  A facade call maps at most once.
\<close>

record env =
  page_size :: nat
  buckets_addr :: nat
  mmap :: "nat \<Rightarrow> nat option"

text \<open>The globals of \<^verbatim>\<open>malloc.c\<close>, the memory and \<^verbatim>\<open>errno\<close>.\<close>

record state =
  mem :: "nat \<Rightarrow> nat"
  initialized :: bool
  mapping_index :: nat
  mappings :: "nat \<Rightarrow> nat \<times> nat"
  errno :: nat

definition MMAP_UNIT :: "env \<Rightarrow> nat" where
  "MMAP_UNIT E = 2 ^ 5 * page_size E"

subsection \<open>The header word\<close>

text \<open>
  \<^verbatim>\<open>struct header\<close> packs \<^verbatim>\<open>size:48\<close>, \<^verbatim>\<open>mapping:15\<close> and \<^verbatim>\<open>free:1\<close> into its first
  eight bytes (bits 0 to 47, 48 to 62 and 63 under the x86-64 ABI); \<^verbatim>\<open>next\<close> is at
  offset 8 and \<^verbatim>\<open>prev\<close> at offset 16.
\<close>

definition hdr_size :: "nat \<Rightarrow> nat" where
  "hdr_size w = w mod 2 ^ 48"

definition hdr_mapping :: "nat \<Rightarrow> nat" where
  "hdr_mapping w = (w div 2 ^ 48) mod 2 ^ 15"

definition hdr_free :: "nat \<Rightarrow> bool" where
  "hdr_free w = ((w div 2 ^ 63) mod 2 = 1)"

definition with_size :: "nat \<Rightarrow> nat \<Rightarrow> nat" where
  "with_size w v = (w div 2 ^ 48) * 2 ^ 48 + v mod 2 ^ 48"

definition with_mapping :: "nat \<Rightarrow> nat \<Rightarrow> nat" where
  "with_mapping w v = w mod 2 ^ 48 + (v mod 2 ^ 15) * 2 ^ 48 + ((w div 2 ^ 63) mod 2) * 2 ^ 63"

definition with_free :: "nat \<Rightarrow> bool \<Rightarrow> nat" where
  "with_free w b = w mod 2 ^ 63 + (if b then 2 ^ 63 else 0)"

definition store :: "state \<Rightarrow> nat \<Rightarrow> nat \<Rightarrow> state" where
  "store s a v = s\<lparr>mem := (mem s)(a := v)\<rparr>"

definition size_at :: "state \<Rightarrow> nat \<Rightarrow> nat" where
  "size_at s b = hdr_size (mem s b)"

definition mapping_at :: "state \<Rightarrow> nat \<Rightarrow> nat" where
  "mapping_at s b = hdr_mapping (mem s b)"

definition free_at :: "state \<Rightarrow> nat \<Rightarrow> bool" where
  "free_at s b = hdr_free (mem s b)"

definition next_at :: "state \<Rightarrow> nat \<Rightarrow> nat" where
  "next_at s b = mem s (b + 8)"

definition prev_at :: "state \<Rightarrow> nat \<Rightarrow> nat" where
  "prev_at s b = mem s (b + 16)"

definition set_size :: "state \<Rightarrow> nat \<Rightarrow> nat \<Rightarrow> state" where
  "set_size s b v = store s b (with_size (mem s b) v)"

definition set_mapping :: "state \<Rightarrow> nat \<Rightarrow> nat \<Rightarrow> state" where
  "set_mapping s b v = store s b (with_mapping (mem s b) v)"

definition set_free :: "state \<Rightarrow> nat \<Rightarrow> bool \<Rightarrow> state" where
  "set_free s b v = store s b (with_free (mem s b) v)"

definition set_next :: "state \<Rightarrow> nat \<Rightarrow> nat \<Rightarrow> state" where
  "set_next s b v = store s (b + 8) v"

definition set_prev :: "state \<Rightarrow> nat \<Rightarrow> nat \<Rightarrow> state" where
  "set_prev s b v = store s (b + 16) v"

text \<open>\<^verbatim>\<open>&buckets[i]\<close>\<close>

definition bucket :: "env \<Rightarrow> nat \<Rightarrow> nat" where
  "bucket E i = buckets_addr E + sizeof_header_t * i"

section \<open>The allocator\<close>

subsection \<open>Sizes and size classes\<close>

definition round_up_power_of_two :: "nat \<Rightarrow> nat \<Rightarrow> nat" where
  "round_up_power_of_two number pw =
     u64 (number + (pw - 1)) AND (2 ^ 64 - 1 - (pw - 1))"

definition aligned :: "nat \<Rightarrow> nat" where
  "aligned sz =
     (let sz1 = round_up_power_of_two sz MEM_UNIT;
          sz2 = u64 (sz1 + (METADATA_OFFSET + sizeof_footer_t))
      in if sz2 \<ge> MIN_ALLOC then sz2 else MIN_ALLOC)"

text \<open>
  The scan for the top bit in \<^verbatim>\<open>bucket_index_from_size\<close>.  The counter is a
  \<^verbatim>\<open>uint8_t\<close>; a shift of the 64-bit size by 64 or more has no defined result.
\<close>

function bucket_index_loop :: "nat \<Rightarrow> nat \<Rightarrow> nat option" where
  "bucket_index_loop sz log2 =
     (if log2 + 1 \<ge> 64 then None
      else if sz div 2 ^ (log2 + 1) > 0 then bucket_index_loop sz ((log2 + 1) mod 256)
      else Some log2)"
  by pat_completeness auto
termination
  by (relation "measure (\<lambda>(sz, log2). 64 - log2)") auto

declare bucket_index_loop.simps [simp del]

definition bucket_index_from_size :: "nat \<Rightarrow> nat option" where
  "bucket_index_from_size sz =
     (let index_1024 = 1024 div MEM_UNIT; log2_1024 = 10
      in if sz < 1024 then Some ((sz div MEM_UNIT) mod 256)
         else map_option (\<lambda>log2. (log2 + (index_1024 - log2_1024)) mod 256)
                (bucket_index_loop sz log2_1024))"

subsection \<open>Buckets\<close>

function initialize_buckets_loop :: "env \<Rightarrow> nat \<Rightarrow> state \<Rightarrow> state" where
  "initialize_buckets_loop E i s =
     (if i < NUM_BUCKETS then
        let s1 = store (store (store s (bucket E i) 0) (bucket E i + 8) NULL) (bucket E i + 16) NULL;
            s2 = set_prev s1 (bucket E i) (bucket E i);
            s3 = set_next s2 (bucket E i) (bucket E i)
        in initialize_buckets_loop E ((i + 1) mod 256) s3
      else s)"
  by pat_completeness auto
termination
  by (relation "measure (\<lambda>(E, i, s). NUM_BUCKETS - i)") (auto simp: NUM_BUCKETS_def)

declare initialize_buckets_loop.simps [simp del]

definition initialize_buckets :: "env \<Rightarrow> state \<Rightarrow> state" where
  "initialize_buckets E s = (initialize_buckets_loop E 0 s)\<lparr>initialized := True\<rparr>"

definition remove_from_bucket :: "state \<Rightarrow> nat \<Rightarrow> state" where
  "remove_from_bucket s block =
     (let s1 = set_next s (prev_at s block) (next_at s block)
      in set_prev s1 (next_at s1 block) (prev_at s1 block))"

definition update_size :: "state \<Rightarrow> nat \<Rightarrow> nat \<Rightarrow> state" where
  "update_size s block sz =
     (let s1 = store s (sub64 (add64 block sz) sizeof_footer_t) sz
      in set_size s1 block sz)"

partial_function (option) insert_into_bucket_loop :: "state \<Rightarrow> nat \<Rightarrow> nat \<Rightarrow> nat option" where
  "insert_into_bucket_loop s block_to_insert pre_insertion_block =
     (let next_block_size = size_at s (next_at s pre_insertion_block)
      in if next_block_size = 0 \<or> next_block_size > size_at s block_to_insert
         then Some pre_insertion_block
         else insert_into_bucket_loop s block_to_insert (next_at s pre_insertion_block))"

definition insert_into_bucket :: "state \<Rightarrow> nat \<Rightarrow> nat \<Rightarrow> state option" where
  "insert_into_bucket s block_to_insert bkt =
     do {
       pre_insertion_block \<leftarrow> insert_into_bucket_loop s block_to_insert bkt;
       let s1 = set_prev s block_to_insert pre_insertion_block;
       let s2 = set_next s1 block_to_insert (next_at s1 pre_insertion_block);
       let s3 = set_next s2 pre_insertion_block block_to_insert;
       let s4 = set_prev s3 (next_at s3 block_to_insert) block_to_insert;
       Some (set_free s4 block_to_insert True)
     }"

definition insert_into_buckets :: "env \<Rightarrow> state \<Rightarrow> nat \<Rightarrow> state option" where
  "insert_into_buckets E s block =
     do {
       i \<leftarrow> bucket_index_from_size (size_at s block);
       insert_into_bucket s block (bucket E i)
     }"

subsection \<open>Split and coalesce\<close>

definition split_after :: "env \<Rightarrow> state \<Rightarrow> nat \<Rightarrow> nat \<Rightarrow> state option" where
  "split_after E s block sz =
     (let new_block = add64 block sz;
          s1 = update_size s new_block (sub64 (size_at s block) sz);
          s2 = set_mapping s1 new_block (mapping_at s1 block)
      in insert_into_buckets E s2 new_block)"

definition adjusted_block :: "env \<Rightarrow> state \<Rightarrow> nat \<Rightarrow> nat \<Rightarrow> (state \<times> nat) option" where
  "adjusted_block E s block sz =
     (if size_at s block < add64 sz MIN_ALLOC then Some (s, block)
      else do {
        s1 \<leftarrow> split_after E s block sz;
        Some (update_size s1 block sz, block)
      })"

text \<open>
  In \<^verbatim>\<open>coalesce\<close> the two sizes are 48-bit bit-fields of \<^verbatim>\<open>header_t\<close>; their sum is formed in
  48 bits, as gcc does for bit-fields wider than \<^verbatim>\<open>int\<close>.
\<close>

definition coalesce :: "env \<Rightarrow> state \<Rightarrow> nat \<Rightarrow> nat \<Rightarrow> state option" where
  "coalesce E s lower higher =
     (let s1 = remove_from_bucket s lower;
          s2 = remove_from_bucket s1 higher;
          s3 = update_size s2 lower ((size_at s2 lower + size_at s2 higher) mod 2 ^ 48)
      in insert_into_buckets E s3 lower)"

subsection \<open>Searching the buckets\<close>

partial_function (option) get_block_from_bucket_loop ::
    "env \<Rightarrow> state \<Rightarrow> nat \<Rightarrow> nat \<Rightarrow> (state \<times> nat) option" where
  "get_block_from_bucket_loop E s block sz =
     (if size_at s block > 0 then
        if size_at s block \<ge> sz then adjusted_block E (remove_from_bucket s block) block sz
        else get_block_from_bucket_loop E s (next_at s block) sz
      else Some (s, NULL))"

definition get_block_from_bucket :: "env \<Rightarrow> state \<Rightarrow> nat \<Rightarrow> nat \<Rightarrow> (state \<times> nat) option" where
  "get_block_from_bucket E s bkt sz = get_block_from_bucket_loop E s (next_at s bkt) sz"

function get_block_from_buckets_loop ::
    "env \<Rightarrow> state \<Rightarrow> nat \<Rightarrow> nat \<Rightarrow> (state \<times> nat) option" where
  "get_block_from_buckets_loop E s i sz =
     (if i < NUM_BUCKETS then
        case get_block_from_bucket E s (bucket E i) sz of
          None \<Rightarrow> None
        | Some (s1, block) \<Rightarrow>
            if block \<noteq> NULL then Some (s1, block)
            else get_block_from_buckets_loop E s1 ((i + 1) mod 256) sz
      else Some (s, NULL))"
  by pat_completeness auto
termination
  by (relation "measure (\<lambda>(E, s, i, sz). NUM_BUCKETS - i)") (auto simp: NUM_BUCKETS_def)

declare get_block_from_buckets_loop.simps [simp del]

definition get_block_from_buckets :: "env \<Rightarrow> state \<Rightarrow> nat \<Rightarrow> (state \<times> nat) option" where
  "get_block_from_buckets E s sz =
     do {
       i \<leftarrow> bucket_index_from_size sz;
       get_block_from_buckets_loop E s i sz
     }"

subsection \<open>Fresh mappings\<close>

text \<open>
  \<^verbatim>\<open>mmap\<close> with \<^verbatim>\<open>MAP_ANONYMOUS\<close> hands out zero-filled pages.  The message printed to
  \<^verbatim>\<open>stderr\<close> when the registry is full is not part of the state.
\<close>

definition zero_fill :: "state \<Rightarrow> nat \<Rightarrow> nat \<Rightarrow> state" where
  "zero_fill s a len = s\<lparr>mem := (\<lambda>x. if a \<le> x \<and> x < a + len then 0 else mem s x)\<rparr>"

definition get_mapping :: "env \<Rightarrow> state \<Rightarrow> nat \<Rightarrow> state \<times> nat" where
  "get_mapping E s sz =
     (case mmap E sz of
        None \<Rightarrow> (s\<lparr>errno := ENOMEM\<rparr>, NULL)
      | Some mapping \<Rightarrow>
          let s0 = zero_fill s mapping sz in
          if mapping_index s0 > 0 \<and> mapping = snd (mappings s0 (mapping_index s0 - 1)) then
            let i = mapping_index s0 - 1;
                m = mappings s0 i
            in (s0\<lparr>mapping_index := i, mappings := (mappings s0)(i := (fst m, add64 (snd m) sz))\<rparr>,
                mapping)
          else if mapping_index s0 = 2 ^ LOG2_NUM_MAPPINGS then (s0, NULL)
          else (s0\<lparr>mappings := (mappings s0)(mapping_index s0 := (mapping, add64 mapping sz))\<rparr>,
                mapping))"

definition get_block_from_os :: "env \<Rightarrow> state \<Rightarrow> nat \<Rightarrow> (state \<times> nat) option" where
  "get_block_from_os E s sz =
     (let requested_size = round_up_power_of_two sz (MMAP_UNIT E)
      in if requested_size < sz then Some (s\<lparr>errno := EINVAL\<rparr>, NULL)
         else
           let (s1, new_mapping) = get_mapping E s requested_size
           in if new_mapping = NULL then Some (s1, NULL)
              else
                let main_block = new_mapping;
                    s2 = update_size s1 main_block requested_size;
                    s3 = set_mapping s2 main_block (mapping_index s2);
                    s4 = s3\<lparr>mapping_index := (mapping_index s3 + 1) mod 2 ^ 16\<rparr>
                in adjusted_block E s4 main_block sz)"

subsection \<open>The facade\<close>

text \<open>
  The four public functions \<^verbatim>\<open>malloc_\<close>, \<^verbatim>\<open>free_\<close>, \<^verbatim>\<open>calloc_\<close> and \<^verbatim>\<open>realloc_\<close>;
  a constant name cannot end with an underscore, so they are \<open>my_malloc\<close>, \<open>my_free\<close>,
  \<open>my_calloc\<close> and \<open>my_realloc\<close> here.
\<close>

definition my_malloc :: "env \<Rightarrow> state \<Rightarrow> nat \<Rightarrow> (state \<times> nat) option" where
  "my_malloc E s sz =
     (let aligned_size = aligned sz
      in if sz = 0 \<or> aligned_size < sz then Some (s\<lparr>errno := EINVAL\<rparr>, NULL)
         else do {
           let s1 = (if initialized s then s else initialize_buckets E s);
           (s2, header) \<leftarrow> get_block_from_buckets E s1 aligned_size;
           (s3, header) \<leftarrow> (if header = NULL then get_block_from_os E s2 aligned_size
                             else Some (s2, header));
           if header = NULL then Some (s3, NULL)
           else Some (set_free s3 header False, add64 header METADATA_OFFSET)
         })"

definition my_free :: "env \<Rightarrow> state \<Rightarrow> nat \<Rightarrow> state option" where
  "my_free E s ptr =
     (if ptr = NULL then Some s
      else do {
        let block = sub64 ptr METADATA_OFFSET;
        s1 \<leftarrow> insert_into_buckets E s block;
        let next_block = add64 block (size_at s1 block);
        s2 \<leftarrow> (if next_block < snd (mappings s1 (mapping_at s1 block)) \<and> free_at s1 next_block
                then coalesce E s1 block next_block else Some s1);
        if block = fst (mappings s2 (mapping_at s2 block)) then Some s2
        else do {
          let previous_block = sub64 block (mem s2 (sub64 block sizeof_footer_t));
          if free_at s2 previous_block then coalesce E s2 previous_block block else Some s2
        }
      })"

text \<open>
  \<^verbatim>\<open>memset\<close> to zero and \<^verbatim>\<open>memcpy\<close> on the cell memory, for 8-byte aligned pointers: whole
  cells first, then the low-order bytes of the last cell (little-endian) when the length
  is not a multiple of 8.
\<close>

definition memset_zero :: "state \<Rightarrow> nat \<Rightarrow> nat \<Rightarrow> state" where
  "memset_zero s p n =
     s\<lparr>mem := (\<lambda>x. if p \<le> x \<and> x + 8 \<le> p + n then 0
                    else if p \<le> x \<and> x < p + n
                      then (mem s x div 2 ^ (8 * (p + n - x))) * 2 ^ (8 * (p + n - x))
                    else mem s x)\<rparr>"

definition memcpy :: "state \<Rightarrow> nat \<Rightarrow> nat \<Rightarrow> nat \<Rightarrow> state" where
  "memcpy s dst src n =
     s\<lparr>mem := (\<lambda>x. if dst \<le> x \<and> x + 8 \<le> dst + n then mem s (src + (x - dst))
                    else if dst \<le> x \<and> x < dst + n
                      then (mem s x div 2 ^ (8 * (dst + n - x))) * 2 ^ (8 * (dst + n - x))
                           + mem s (src + (x - dst)) mod 2 ^ (8 * (dst + n - x))
                    else mem s x)\<rparr>"

definition my_calloc :: "env \<Rightarrow> state \<Rightarrow> nat \<Rightarrow> nat \<Rightarrow> (state \<times> nat) option" where
  "my_calloc E s num sz =
     (if num = 0 \<or> sz > (2 ^ 64 - 1) div num then Some (s\<lparr>errno := EINVAL\<rparr>, NULL)
      else do {
        let total_size = u64 (num * sz);
        (s1, ptr) \<leftarrow> my_malloc E s total_size;
        if ptr = NULL then Some (s1, NULL)
        else Some (memset_zero s1 ptr total_size, ptr)
      })"

definition my_realloc :: "env \<Rightarrow> state \<Rightarrow> nat \<Rightarrow> nat \<Rightarrow> (state \<times> nat) option" where
  "my_realloc E s ptr sz =
     (if ptr = NULL \<or> sz = 0 then do {
        s1 \<leftarrow> my_free E s ptr;
        my_malloc E s1 sz
      }
      else
        let block = sub64 ptr METADATA_OFFSET;
            old_size = sub64 (sub64 (size_at s block) METADATA_OFFSET) sizeof_footer_t
        in if sz \<le> old_size then do {
             (s1, b) \<leftarrow> adjusted_block E s block (aligned sz);
             Some (s1, add64 b METADATA_OFFSET)
           }
           else do {
             (s1, new_ptr) \<leftarrow> my_malloc E s sz;
             let s2 = (if new_ptr \<noteq> NULL then memcpy s1 new_ptr ptr old_size else s1);
             s3 \<leftarrow> my_free E s2 ptr;
             Some (s3, new_ptr)
           })"

text \<open>The state of the process before the first facade call: all globals zero.\<close>

definition cold :: state where
  "cold = \<lparr>mem = (\<lambda>x. 0), initialized = False, mapping_index = 0,
           mappings = (\<lambda>i. (0, 0)), errno = 0\<rparr>"

text \<open>
  Environments of the scenarios: 4096-byte pages, the bucket array at address 65536, and a
  page source that either refuses every request or answers with address 1048576.
\<close>

definition env_refuse :: env where
  "env_refuse = \<lparr>page_size = 4096, buckets_addr = 65536, mmap = (\<lambda>n. None)\<rparr>"

definition env_grant :: env where
  "env_grant = \<lparr>page_size = 4096, buckets_addr = 65536, mmap = (\<lambda>n. Some 1048576)\<rparr>"

section \<open>Abstraction of the heap\<close>

text \<open>A list of cell writes, applied from left to right.\<close>

definition stores :: "state \<Rightarrow> (nat \<times> nat) list \<Rightarrow> state" where
  "stores s kvs = foldl (\<lambda>s (k, v). store s k v) s kvs"


text \<open>
  \<open>chain s c\<close>: each element of \<open>c\<close> has the following one as its \<^verbatim>\<open>next\<close>, which has it as
  its \<^verbatim>\<open>prev\<close>.  A bucket with sentinel \<open>h\<close> and members \<open>xs\<close> is a circular doubly-linked
  list when \<open>chain s (h # xs @ [h])\<close>.
\<close>

fun chain :: "state \<Rightarrow> nat list \<Rightarrow> bool" where
  "chain s (x # y # zs) = (next_at s x = y \<and> prev_at s y = x \<and> chain s (y # zs))"
| "chain s [x] = True"
| "chain s [] = True"

text \<open>Two headers are far apart when their three cells do not overlap.\<close>

definition far :: "nat \<Rightarrow> nat \<Rightarrow> bool" where
  "far x y \<longleftrightarrow> x + 24 \<le> y \<or> y + 24 \<le> x"

definition spread :: "nat set \<Rightarrow> bool" where
  "spread X \<longleftrightarrow> (\<forall>x \<in> X. \<forall>y \<in> X. x = y \<or> far x y)"

definition sentinels :: "env \<Rightarrow> nat set" where
  "sentinels E = bucket E ` {..<166}"

text \<open>
  A block of mapping \<open>m\<close> at \<open>b\<close>: at least \<^verbatim>\<open>MIN_ALLOC\<close> bytes, header and footer agree, and
  the header names the mapping.  \<open>tiles s m lo bs hi\<close>: the blocks \<open>bs\<close> fill the addresses
  from \<open>lo\<close> to \<open>hi\<close> without gap.
\<close>

definition block_ok :: "state \<Rightarrow> nat \<Rightarrow> nat \<Rightarrow> bool" where
  "block_ok s m b \<longleftrightarrow>
     32 \<le> size_at s b \<and> mem s (b + size_at s b - 8) = size_at s b \<and> mapping_at s b = m"

fun tiles :: "state \<Rightarrow> nat \<Rightarrow> nat \<Rightarrow> nat list \<Rightarrow> nat \<Rightarrow> bool" where
  "tiles s m lo [] hi = (lo = hi)"
| "tiles s m lo (b # bs) hi = (b = lo \<and> block_ok s m b \<and> tiles s m (lo + size_at s b) bs hi)"

text \<open>
  The registry: at most \<open>2 ^ 15\<close> mappings, each a non-empty range of the 48-bit address
  space above address 0, apart from the bucket array and from each other.
\<close>

definition registry_ok :: "env \<Rightarrow> state \<Rightarrow> bool" where
  "registry_ok E s \<longleftrightarrow> mapping_index s \<le> 2 ^ 15 \<and>
     (\<forall>m < mapping_index s.
        0 < fst (mappings s m) \<and> fst (mappings s m) < snd (mappings s m) \<and>
        snd (mappings s m) \<le> 2 ^ 48 \<and>
        (snd (mappings s m) \<le> buckets_addr E \<or> buckets_addr E + 3984 \<le> fst (mappings s m)) \<and>
        (\<forall>m' < mapping_index s. m \<noteq> m' \<longrightarrow>
           snd (mappings s m) \<le> fst (mappings s m') \<or> snd (mappings s m') \<le> fst (mappings s m)))"

text \<open>
  \<open>L i\<close> lists the members of bucket \<open>i\<close> in list order, \<open>T m\<close> the blocks of mapping \<open>m\<close> in
  address order.  Bucket \<open>i\<close> is a ring when its sentinel, of size 0, and its members, of
  positive size and sorted by size, form a circular doubly-linked list.
\<close>

definition nodes :: "(nat \<Rightarrow> nat list) \<Rightarrow> nat set" where
  "nodes L = (\<Union>i < 166. set (L i))"

definition blocks :: "state \<Rightarrow> (nat \<Rightarrow> nat list) \<Rightarrow> nat set" where
  "blocks s T = (\<Union>m < mapping_index s. set (T m))"

definition bucket_ring :: "env \<Rightarrow> state \<Rightarrow> nat \<Rightarrow> nat list \<Rightarrow> bool" where
  "bucket_ring E s i xs \<longleftrightarrow>
     chain s (bucket E i # xs @ [bucket E i]) \<and> size_at s (bucket E i) = 0 \<and>
     (\<forall>b \<in> set xs. 0 < size_at s b) \<and> distinct xs \<and> sorted (map (size_at s) xs)"

definition buckets_ok :: "env \<Rightarrow> state \<Rightarrow> (nat \<Rightarrow> nat list) \<Rightarrow> bool" where
  "buckets_ok E s L \<longleftrightarrow>
     (\<forall>i < 166. bucket_ring E s i (L i) \<and>
        (\<forall>b \<in> set (L i). bucket_index_from_size (size_at s b) = Some i))"

text \<open>
  The sorted position \<^verbatim>\<open>insert_into_bucket\<close> gives a block \<open>b\<close> in bucket \<open>i\<close>: after every member
  whose size is at most that of \<open>b\<close>, before the first larger one.
\<close>

definition insert_node :: "state \<Rightarrow> (nat \<Rightarrow> nat list) \<Rightarrow> nat \<Rightarrow> nat \<Rightarrow> nat \<Rightarrow> nat list" where
  "insert_node s L i b =
     L(i := takeWhile (\<lambda>x. size_at s x \<le> size_at s b) (L i) @ b #
            dropWhile (\<lambda>x. size_at s x \<le> size_at s b) (L i))"

definition remove_node :: "(nat \<Rightarrow> nat list) \<Rightarrow> nat \<Rightarrow> nat \<Rightarrow> nat list" where
  "remove_node L b = (\<lambda>i. removeAll b (L i))"

text \<open>Two states with the same registry; they may differ in memory and in \<^verbatim>\<open>errno\<close>.\<close>

definition same_globals :: "state \<Rightarrow> state \<Rightarrow> bool" where
  "same_globals s s' \<longleftrightarrow> initialized s' = initialized s \<and> mapping_index s' = mapping_index s \<and>
     mappings s' = mappings s"

text \<open>
  \<open>frame W s s'\<close>: the step from \<open>s\<close> to \<open>s'\<close> writes cells of \<open>W\<close> only.  \<open>links A\<close> are the
  \<^verbatim>\<open>next\<close> and \<^verbatim>\<open>prev\<close> cells of the headers at \<open>A\<close>.
\<close>

definition frame :: "nat set \<Rightarrow> state \<Rightarrow> state \<Rightarrow> bool" where
  "frame W s s' \<longleftrightarrow> same_globals s s' \<and> (\<forall>a. a \<notin> W \<longrightarrow> mem s' a = mem s a)"

definition links :: "nat set \<Rightarrow> nat set" where
  "links A = (\<lambda>x. x + 8) ` A \<union> (\<lambda>x. x + 16) ` A"

text \<open>The addresses of the block at \<open>b\<close>, header and footer included.\<close>

definition region :: "state \<Rightarrow> nat \<Rightarrow> nat set" where
  "region s b = {b ..< b + size_at s b}"

definition tiled :: "state \<Rightarrow> (nat \<Rightarrow> nat list) \<Rightarrow> bool" where
  "tiled s T \<longleftrightarrow>
     (\<forall>m < mapping_index s. tiles s m (fst (mappings s m)) (T m) (snd (mappings s m)))"

text \<open>
  The invariant of the allocator once its buckets are initialised.  \<open>X\<close> holds the blocks in
  transit, whose \<^verbatim>\<open>free\<close> flag is not yet settled; at rest \<open>X\<close> is empty.
\<close>

definition heap_inv_but :: "nat set \<Rightarrow> env \<Rightarrow> state \<Rightarrow> (nat \<Rightarrow> nat list) \<Rightarrow> (nat \<Rightarrow> nat list) \<Rightarrow> bool" where
  "heap_inv_but X E s L T \<longleftrightarrow>
     initialized s \<and> registry_ok E s \<and> tiled s T \<and> buckets_ok E s L \<and>
     nodes L \<subseteq> blocks s T - X \<and>
     (\<forall>b \<in> blocks s T - X. free_at s b \<longleftrightarrow> b \<in> nodes L)"

definition heap_inv :: "env \<Rightarrow> state \<Rightarrow> (nat \<Rightarrow> nat list) \<Rightarrow> (nat \<Rightarrow> nat list) \<Rightarrow> bool" where
  "heap_inv E s L T = heap_inv_but {} E s L T"

text \<open>The blocks in use, and the assumption on the page source: \<^verbatim>\<open>mmap\<close> answers with a range
  of addresses that lies above address 0 and within 48 bits, apart from the bucket array and
  from the mappings already registered.\<close>

definition allocated :: "state \<Rightarrow> (nat \<Rightarrow> nat list) \<Rightarrow> nat set" where
  "allocated s T = {b \<in> blocks s T. \<not> free_at s b}"



section \<open>Sequences of facade calls\<close>







section \<open>Scenario states\<close>

text \<open>
  Closed forms of the states the scenarios pass through.  \<open>init_cell B i old x\<close> is the
  content of cell \<open>x\<close> once \<^verbatim>\<open>initialize_buckets\<close> has run over the sentinels from index \<open>i\<close> on:
  every sentinel has size 0 and is linked to itself.  A scenario state is the state \<open>base\<close>
  (buckets initialised, one zero-filled mapping of 131072 bytes at address \<open>a\<close> registered)
  with a list of cells written over it.
\<close>

definition init_cell :: "nat \<Rightarrow> nat \<Rightarrow> nat \<Rightarrow> nat \<Rightarrow> nat" where
  "init_cell B i old x =
     (if B + 24 * i \<le> x \<and> x < B + 24 * 166 then
        (if (x - B) mod 24 = 0 then 0
         else if (x - B) mod 24 = 8 \<or> (x - B) mod 24 = 16 then x - (x - B) mod 24
         else old)
      else old)"

definition layout :: "env \<Rightarrow> nat \<Rightarrow> bool" where
  "layout E a \<longleftrightarrow> page_size E = 4096 \<and> 0 < a \<and> a + 131072 < 2 ^ 64 \<and>
     (a + 131072 \<le> buckets_addr E \<or> buckets_addr E + 3984 \<le> a)"

definition base :: "env \<Rightarrow> nat \<Rightarrow> nat \<Rightarrow> state" where
  "base E a e = (zero_fill (initialize_buckets E cold) a 131072)
               \<lparr>mapping_index := 1, mappings := (mappings cold)(0 := (a, a + 131072)), errno := e\<rparr>"

definition post8 :: "env \<Rightarrow> nat \<Rightarrow> nat \<Rightarrow> state" where
  "post8 E a e =
     stores (base E a e)
       [(a, 32), (a + 24, 32),
        (a + 32, 131040 + 2 ^ 63), (a + 40, bucket E 134), (a + 48, bucket E 134), (a + 131064, 131040),
        (bucket E 134 + 8, a + 32), (bucket E 134 + 16, a + 32)]"

definition post_release :: "env \<Rightarrow> nat \<Rightarrow> nat \<Rightarrow> state" where
  "post_release E a e =
     stores (base E a e)
       [(a, 131072 + 2 ^ 63), (a + 8, bucket E 135), (a + 16, bucket E 135), (a + 24, 32),
        (a + 32, 131040 + 2 ^ 63), (a + 40, bucket E 134), (a + 48, bucket E 134),
        (a + 131064, 131072),
        (bucket E 4 + 8, bucket E 4), (bucket E 4 + 16, bucket E 4),
        (bucket E 134 + 8, bucket E 134), (bucket E 134 + 16, bucket E 134),
        (bucket E 135 + 8, a), (bucket E 135 + 16, a)]"

definition post_reacquire :: "env \<Rightarrow> nat \<Rightarrow> nat \<Rightarrow> state" where
  "post_reacquire E a e =
     stores (base E a e)
       [(a, 32), (a + 8, bucket E 135), (a + 16, bucket E 135), (a + 24, 32),
        (a + 32, 131040 + 2 ^ 63), (a + 40, bucket E 134), (a + 48, bucket E 134),
        (a + 131064, 131040),
        (bucket E 4 + 8, bucket E 4), (bucket E 4 + 16, bucket E 4),
        (bucket E 134 + 8, a + 32), (bucket E 134 + 16, a + 32),
        (bucket E 135 + 8, bucket E 135), (bucket E 135 + 16, bucket E 135)]"

definition post100 :: "env \<Rightarrow> nat \<Rightarrow> nat \<Rightarrow> state" where
  "post100 E a e =
     stores (base E a e)
       [(a, 120), (a + 112, 120),
        (a + 120, 130952 + 2 ^ 63), (a + 128, bucket E 134), (a + 136, bucket E 134),
        (a + 131064, 130952),
        (bucket E 134 + 8, a + 120), (bucket E 134 + 16, a + 120)]"

definition post_shrink :: "env \<Rightarrow> nat \<Rightarrow> nat \<Rightarrow> state" where
  "post_shrink E a e =
     stores (base E a e)
       [(a, 32), (a + 24, 32),
        (a + 32, 88 + 2 ^ 63), (a + 40, bucket E 11), (a + 48, bucket E 11), (a + 112, 88),
        (a + 120, 130952 + 2 ^ 63), (a + 128, bucket E 134), (a + 136, bucket E 134),
        (a + 131064, 130952),
        (bucket E 11 + 8, a + 32), (bucket E 11 + 16, a + 32),
        (bucket E 134 + 8, a + 120), (bucket E 134 + 16, a + 120)]"

text \<open>
  The bucket members and the blocks of the state \<open>post8\<close>: an allocated block of 32 bytes at
  \<open>a\<close>, and the free tail at \<open>a + 32\<close> as the only member of bucket 134.
\<close>

definition post8_buckets :: "nat \<Rightarrow> nat \<Rightarrow> nat list" where
  "post8_buckets a i = (if i = 134 then [a + 32] else [])"

definition post8_blocks :: "nat \<Rightarrow> nat \<Rightarrow> nat list" where
  "post8_blocks a m = (if m = 0 then [a, a + 32] else [])"


section \<open>Size classes\<close>

lemma bucket_index_loop_spec:
  "2 ^ l \<le> sz \<Longrightarrow> sz < 2 ^ 63 \<Longrightarrow> l < 63 \<Longrightarrow>
   \<exists>k. bucket_index_loop sz l = Some k \<and> l \<le> k \<and> k < 63 \<and> 2 ^ k \<le> sz \<and> sz < 2 ^ (k + 1)"
proof (induction sz l rule: bucket_index_loop.induct)
  case (1 sz log2)
  show ?case
  proof (cases "sz div 2 ^ (log2 + 1) > 0")
    case True
    then have ge: "2 ^ (log2 + 1) \<le> sz"
      by (metis div_less leI less_numeral_extra(3))
    have "log2 + 1 < 63"
    proof (rule ccontr)
      assume "\<not> log2 + 1 < 63"
      with 1(4) have "log2 + 1 = 63" by simp
      with ge 1(3) show False by simp
    qed
    then have m: "(log2 + 1) mod 256 = log2 + 1" by simp
    from 1(1)[unfolded m] True \<open>log2 + 1 < 63\<close> ge 1(3)
    obtain k where "bucket_index_loop sz (log2 + 1) = Some k" "log2 + 1 \<le> k" "k < 63"
        "2 ^ k \<le> sz" "sz < 2 ^ (k + 1)"
      by auto
    then show ?thesis using True \<open>log2 + 1 < 63\<close> m
      by (subst bucket_index_loop.simps) auto
  next
    case False
    then have "sz < 2 ^ (log2 + 1)"
      by (simp add: div_greater_zero_iff)
    then show ?thesis using False 1(2,4)
      by (subst bucket_index_loop.simps) auto
  qed
qed

lemma floor_log2_div8:
  assumes "2 ^ k \<le> s" "s < 2 ^ (k + 1)" "3 \<le> k"
  shows "nat \<lfloor>log 2 (real s / 8)\<rfloor> = k - 3"
proof -
  have "k = 3 + (k - 3)" using assms(3) by simp
  then have "(2::real) ^ k = 2 ^ (3 + (k - 3))" by simp
  then have p1: "(2::real) ^ k = 8 * 2 ^ (k - 3)" by (simp only: power_add) simp
  have r1: "(2::real) ^ k \<le> real s"
    using of_nat_mono [OF assms(1), where 'a = real] by simp
  have r2: "real s < 2 * 2 ^ k"
    using of_nat_less_iff [of s "2 ^ (k + 1)", where 'a = real] assms(2) by simp
  have a: "2 powr real (k - 3) \<le> real s / 8"
    using r1 p1 by (simp add: powr_realpow)
  have b: "real s / 8 < 2 powr (real (k - 3) + 1)"
    using r2 p1 by (simp add: powr_realpow powr_add)
  have "(0::real) < 2 ^ k" by simp
  then have "0 < real s" using r1 by (rule less_le_trans)
  then have c: "0 < real s / 8" by simp
  have "\<lfloor>log 2 (real s / 8)\<rfloor> = int (k - 3)"
    using a b c by (subst floor_log_eq_powr_iff) simp_all
  then show ?thesis by simp
qed

lemma bucket_index_9: "bucket_index_from_size 9 = Some 1"
  by (simp add: bucket_index_from_size_def MEM_UNIT_def)

lemma bucket_index_2p48: "bucket_index_from_size (2 ^ 48) = Some 166"
  by (simp add: bucket_index_from_size_def MEM_UNIT_def bucket_index_loop.simps)

text \<open>
  C5, as stated, fails: size 9 is placed in class 1, whose only size is 8, and size \<open>2 ^ 48\<close>
  gets index 166, past the last class.
\<close>

theorem bucket_index_counterexample:
  "bucket_index_from_size 9 = Some 1 \<and> (9::nat) \<noteq> 8 * 1 \<and>
   bucket_index_from_size (2 ^ 48) = Some 166 \<and> \<not> (166::nat) \<le> 165"
  by (simp only: bucket_index_9 bucket_index_2p48) simp

text \<open>
  C5 (amended): for every size \<open>s\<close> that is a multiple of 8 with \<open>0 < s < 2 ^ 48\<close>,
  \<^verbatim>\<open>bucket_index_from_size\<close> returns \<open>s / 8\<close> when \<open>s < 1024\<close> and
  \<open>121 + \<lfloor>log\<^sub>2 (s / 8)\<rfloor>\<close> otherwise, and \<open>s\<close> lies in the advertised range of that class:
  \<open>s = 8 * i\<close> for \<open>i \<le> 127\<close>, and \<open>2 ^ (i - 121) * 8 \<le> s < 2 ^ (i - 120) * 8\<close> with
  \<open>i \<le> 165\<close> otherwise.
\<close>

theorem bucket_index_partition:
  assumes "0 < s" "s < 2 ^ 48" "8 dvd s"
  shows "\<exists>i. bucket_index_from_size s = Some i \<and>
       i = (if s < 1024 then s div 8 else 121 + nat \<lfloor>log 2 (real s / 8)\<rfloor>) \<and>
       (if i \<le> 127 then s = 8 * i
        else i \<le> 165 \<and> 2 ^ (i - 121) * 8 \<le> s \<and> s < 2 ^ (i - 120) * 8)"
proof (cases "s < 1024")
  case True
  then have "bucket_index_from_size s = Some (s div 8)"
    by (simp add: bucket_index_from_size_def MEM_UNIT_def)
  moreover have "s div 8 \<le> 127" using True by simp
  moreover have "s = 8 * (s div 8)" using assms(3) by simp
  ultimately show ?thesis using True by simp
next
  case False
  then have "2 ^ 10 \<le> s" by simp
  moreover have "s < 2 ^ 63" using assms(2) by simp
  ultimately obtain k where k: "bucket_index_loop s 10 = Some k" "10 \<le> k" "2 ^ k \<le> s" "s < 2 ^ (k + 1)"
    using bucket_index_loop_spec [of 10 s] by auto
  have "(2::nat) ^ k < 2 ^ 48" using k(3) assms(2) by (rule le_less_trans)
  then have k48: "k < 48" by (rule power_less_imp_less_exp [rotated]) simp
  have idx: "bucket_index_from_size s = Some (k + 118)"
    using False k(1) k48 by (simp add: bucket_index_from_size_def MEM_UNIT_def)
  have fl: "nat \<lfloor>log 2 (real s / 8)\<rfloor> = k - 3"
    using k by (intro floor_log2_div8) simp_all
  have e1: "(2::nat) ^ (k + 118 - 121) * 8 = 2 ^ k"
  proof -
    have "(2::nat) ^ k = 2 ^ (k - 3 + 3)" using k(2) by simp
    also have "\<dots> = 2 ^ (k - 3) * 8" by (simp only: power_add) simp
    finally show ?thesis using k(2) by simp
  qed
  have e2: "(2::nat) ^ (k + 118 - 120) * 8 = 2 ^ (k + 1)"
  proof -
    have "(2::nat) ^ (k + 1) = 2 ^ (k - 2 + 3)" using k(2) by simp
    also have "\<dots> = 2 ^ (k - 2) * 8" by (simp only: power_add) simp
    finally show ?thesis using k(2) by simp
  qed
  show ?thesis
    using idx False fl k(2) k48 k(3,4) e1 e2 by simp
qed

theorem bucket_index_partition_witness:
  "(0::nat) < 131040 \<and> (131040::nat) < 2 ^ 48 \<and> (8::nat) dvd 131040 \<and> (\<exists>i. bucket_index_from_size 131040 = Some i \<and>
       i = (if (131040::nat) < 1024 then 131040 div 8 else 121 + nat \<lfloor>log 2 (real 131040 / 8)\<rfloor>) \<and>
       (if i \<le> 127 then 131040 = 8 * i
        else i \<le> 165 \<and> 2 ^ (i - 121) * 8 \<le> (131040::nat) \<and> (131040::nat) < 2 ^ (i - 120) * 8))"
proof -
  have h: "(0::nat) < 131040" "(131040::nat) < 2 ^ 48" "(8::nat) dvd 131040" by simp_all
  note c = bucket_index_partition [OF h]
  show ?thesis by (intro conjI h c)
qed

section \<open>Size-zero requests\<close>

lemma malloc_zero: "my_malloc E s 0 = Some (s\<lparr>errno := EINVAL\<rparr>, NULL)"
  by (simp add: my_malloc_def)

text \<open>
  C10: for every \<open>num > 0\<close>, \<^verbatim>\<open>calloc_(num, 0)\<close> returns the null pointer with \<^verbatim>\<open>errno\<close> set
  to \<^verbatim>\<open>EINVAL\<close>; the zero product passes the overflow guard, the underlying \<^verbatim>\<open>malloc_\<close>
  rejects the total size 0, and nothing else of the state changes.
\<close>

theorem calloc_zero_size:
  "0 < num \<Longrightarrow> my_calloc E s num 0 = Some (s\<lparr>errno := EINVAL\<rparr>, NULL)"
  by (simp add: my_calloc_def u64_def malloc_zero)

theorem calloc_zero_size_witness:
  "(0::nat) < 3 \<and> my_calloc env_refuse cold 3 0 = Some (cold\<lparr>errno := EINVAL\<rparr>, NULL)"
  using calloc_zero_size [of 3 env_refuse cold] by simp

text \<open>
  C4, as stated, fails: \<^verbatim>\<open>realloc_(NULL, 0)\<close> on the cold allocator returns the null pointer
  and sets \<^verbatim>\<open>errno\<close>, which was 0, to \<^verbatim>\<open>EINVAL\<close>.
\<close>

theorem realloc_zero_counterexample:
  "my_realloc env_refuse cold NULL 0 = Some (cold\<lparr>errno := EINVAL\<rparr>, NULL) \<and>
   errno (cold\<lparr>errno := EINVAL\<rparr>) \<noteq> errno cold"
  by (simp add: my_realloc_def my_free_def malloc_zero cold_def EINVAL_def)

section \<open>Evaluation of the heap operations\<close>

lemma mem_store [simp]: "mem (store s a v) x = (if x = a then v else mem s x)"
  and initialized_store [simp]: "initialized (store s a v) = initialized s"
  and mapping_index_store [simp]: "mapping_index (store s a v) = mapping_index s"
  and mappings_store [simp]: "mappings (store s a v) = mappings s"
  and errno_store [simp]: "errno (store s a v) = errno s"
  by (simp_all add: store_def)

lemma p63: "(2::nat) ^ 63 = 2 ^ 48 * 2 ^ 15"
  by simp

lemma div63: "(w::nat) div 2 ^ 63 = (w div 2 ^ 48) div 2 ^ 15"
  unfolding p63 by (rule div_mult2_eq)

lemma hdr_size_with_size [simp]: "hdr_size (with_size w v) = v mod 2 ^ 48"
  by (simp add: hdr_size_def with_size_def)

lemma with_size_div: "with_size w v div 2 ^ 48 = w div 2 ^ 48"
proof -
  have "v mod 2 ^ 48 < (2::nat) ^ 48" by simp
  then show ?thesis unfolding with_size_def by (simp add: div_mult_self3)
qed

lemma hdr_mapping_with_size [simp]: "hdr_mapping (with_size w v) = hdr_mapping w"
  unfolding hdr_mapping_def with_size_div ..

lemma hdr_free_with_size [simp]: "hdr_free (with_size w v) = hdr_free w"
  unfolding hdr_free_def div63 with_size_div ..

lemma hdr_size_with_mapping [simp]: "hdr_size (with_mapping w v) = hdr_size w"
proof -
  have "(w mod 2 ^ 48 + (v mod 2 ^ 15) * 2 ^ 48 + ((w div 2 ^ 63) mod 2) * (2 ^ 48 * 2 ^ 15)) mod 2 ^ 48
        = w mod (2::nat) ^ 48"
    by (simp add: mod_add_eq [symmetric] del: p63) 
  then show ?thesis unfolding hdr_size_def with_mapping_def p63 .
qed

lemma div_pack: "(lo::nat) < a \<Longrightarrow> (lo + m * a + f * (a * b)) div a = m + f * b"
proof -
  assume "lo < a"
  have "lo + m * a + f * (a * b) = lo + (m + f * b) * a" by (simp add: algebra_simps)
  then show ?thesis using \<open>lo < a\<close> by (simp only: div_mult_self3) simp
qed

lemma mod_div_pack: "0 < a \<Longrightarrow> ((w::nat) mod (a * b)) div a = (w div a) mod b"
  by (simp add: mod_mult2_eq)

lemma with_mapping_div: "with_mapping w v div 2 ^ 48 = v mod 2 ^ 15 + ((w div 2 ^ 63) mod 2) * 2 ^ 15"
  using div_pack [of "w mod 2 ^ 48" "2 ^ 48" "v mod 2 ^ 15" "(w div 2 ^ 63) mod 2" "2 ^ 15"]
  by (simp add: with_mapping_def)

lemma hdr_mapping_with_mapping [simp]: "hdr_mapping (with_mapping w v) = v mod 2 ^ 15"
  unfolding hdr_mapping_def with_mapping_div by simp

lemma hdr_free_with_mapping [simp]: "hdr_free (with_mapping w v) = hdr_free w"
proof -
  have "v mod 2 ^ 15 < (2::nat) ^ 15" by simp
  then have "(v mod 2 ^ 15 + ((w div 2 ^ 63) mod 2) * 2 ^ 15) div 2 ^ 15 = (w div 2 ^ 63) mod 2"
    by (simp add: div_mult_self3)
  then show ?thesis unfolding hdr_free_def div63 [of "with_mapping w v"] with_mapping_div by simp
qed

lemma hdr_size_with_free [simp]: "hdr_size (with_free w b) = hdr_size w"
proof -
  have "(w mod 2 ^ 63) mod 2 ^ 48 = w mod (2::nat) ^ 48"
    by (rule mod_mod_cancel) (simp add: le_imp_power_dvd)
  moreover have "(w mod 2 ^ 63 + 2 ^ 63) mod 2 ^ 48 = (w mod 2 ^ 63) mod (2::nat) ^ 48"
    unfolding p63 by (metis mod_mult_self1 mult.commute p63)
  ultimately show ?thesis unfolding hdr_size_def with_free_def by (cases b) simp_all
qed

lemma with_free_div: "with_free w b div 2 ^ 48 = (w div 2 ^ 48) mod 2 ^ 15 + (if b then 2 ^ 15 else 0)"
proof -
  have a: "(w mod 2 ^ 63) div 2 ^ 48 = (w div 2 ^ 48) mod (2::nat) ^ 15"
    using mod_div_pack [of "2 ^ 48" w "2 ^ 15"] by simp
  have "(w mod 2 ^ 63 + 2 ^ 15 * 2 ^ 48) div 2 ^ 48 = (w mod 2 ^ 63) div 2 ^ 48 + (2::nat) ^ 15"
    using div_mult_self1 [of "(2::nat) ^ 48" "w mod 2 ^ 63" "2 ^ 15"] by simp
  then show ?thesis unfolding with_free_def using a by (cases b) (simp_all)
qed

lemma hdr_mapping_with_free [simp]: "hdr_mapping (with_free w b) = hdr_mapping w"
  unfolding hdr_mapping_def with_free_div by (cases b) simp_all

lemma hdr_free_with_free [simp]: "hdr_free (with_free w b) = b"
proof -
  have "(w div 2 ^ 48) mod 2 ^ 15 < (2::nat) ^ 15" by simp
  then have "((w div 2 ^ 48) mod 2 ^ 15 + (if b then 2 ^ 15 else 0)) div 2 ^ 15 = (if b then 1 else (0::nat))"
    by (simp del: mod_less_divisor)
  then show ?thesis unfolding hdr_free_def div63 [of "with_free w b"] with_free_div by simp
qed

lemma add64_nowrap: "a + b < 2 ^ 64 \<Longrightarrow> add64 a b = a + b"
  by (simp add: add64_def)

lemma sub64_nowrap: "b \<le> a \<Longrightarrow> a < 2 ^ 64 \<Longrightarrow> sub64 a b = a - b"
proof -
  assume h: "b \<le> a" "a < 2 ^ 64"
  then have "b mod 2 ^ 64 = b" by simp
  moreover have "a + (2 ^ 64 - b) = (a - b) + 2 ^ 64" using h by simp
  ultimately show ?thesis using h unfolding sub64_def by (simp only: mod_add_self2) simp
qed

lemma initialize_buckets_loop_fields [simp]:
  "initialized (initialize_buckets_loop E i s) = initialized s \<and>
   mapping_index (initialize_buckets_loop E i s) = mapping_index s \<and>
   mappings (initialize_buckets_loop E i s) = mappings s \<and>
   errno (initialize_buckets_loop E i s) = errno s"
proof (induction E i s rule: initialize_buckets_loop.induct)
  case (1 E i s)
  show ?case
  proof (cases "i < NUM_BUCKETS")
    case True
    from 1 [OF True refl refl refl] True show ?thesis
      by (subst (1 2 3 4) initialize_buckets_loop.simps)
         (simp add: Let_def set_prev_def set_next_def)
  next
    case False
    then show ?thesis
      by (subst (1 2 3 4) initialize_buckets_loop.simps) simp
  qed
qed

lemma init_cell_step:
  assumes "i < 166"
  shows "init_cell B (Suc i)
        (if x = B + 24 * i + 8 then B + 24 * i else if x = B + 24 * i + 16 then B + 24 * i
         else if x = B + 24 * i then 0 else old) x = init_cell B i old x"
proof -
  consider "x < B + 24 * i" | "B + 24 * i \<le> x" "x < B + 24 * i + 24" | "B + 24 * i + 24 \<le> x"
    by linarith
  then show ?thesis
  proof cases
    case 1
    then show ?thesis by (simp add: init_cell_def)
  next
    case 2
    define d where "d = x - (B + 24 * i)"
    have x: "x = B + 24 * i + d" and d: "d < 24" using 2 by (simp_all add: d_def)
    have "x - B = 24 * i + d" using x by simp
    then have md: "(x - B) mod 24 = d" using d by simp
    have up: "x < B + 24 * 166" using assms 2(2) by simp
    have lo: "\<not> B + 24 * Suc i \<le> x" using 2(2) by simp
    have sub: "B + 24 * i + d - d = B + 24 * i" by simp
    show ?thesis
      unfolding init_cell_def md using 2(1) up lo
      by (simp only: x sub) (simp add: x)
  next
    case 3
    then show ?thesis by (simp add: init_cell_def)
  qed
qed

lemma mem_initialize_buckets_loop:
  "i \<le> 166 \<Longrightarrow> mem (initialize_buckets_loop E i s) x = init_cell (buckets_addr E) i (mem s x) x"
proof (induction E i s rule: initialize_buckets_loop.induct)
  case (1 E i s)
  show ?case
  proof (cases "i < NUM_BUCKETS")
    case False
    with 1(2) have "i = 166" by (simp add: NUM_BUCKETS_def)
    then show ?thesis
      by (subst initialize_buckets_loop.simps) (simp add: NUM_BUCKETS_def init_cell_def)
  next
    case True
    then have i: "i < 166" by (simp add: NUM_BUCKETS_def)
    then have m: "(i + 1) mod 256 = Suc i" "Suc i mod 256 = Suc i" by simp_all
    let ?B = "buckets_addr E"
    let ?s3 = "set_next (set_prev (store (store (store s (bucket E i) 0) (bucket E i + 8) NULL)
                 (bucket E i + 16) NULL) (bucket E i) (bucket E i)) (bucket E i) (bucket E i)"
    have unf: "initialize_buckets_loop E i s = initialize_buckets_loop E (Suc i) ?s3"
      using True by (subst initialize_buckets_loop.simps) (simp add: Let_def m)
    have "mem (initialize_buckets_loop E (Suc i) ?s3) x = init_cell ?B (Suc i) (mem ?s3 x) x"
      using 1(1) [OF True refl refl refl] i unfolding m by simp
    moreover have "mem ?s3 x = (if x = ?B + 24 * i + 8 then ?B + 24 * i else if x = ?B + 24 * i + 16 then ?B + 24 * i
         else if x = ?B + 24 * i then 0 else mem s x)"
      by (simp add: set_prev_def set_next_def bucket_def sizeof_header_t_def NULL_def)
    ultimately show ?thesis
      unfolding unf using init_cell_step [OF i, of ?B x "mem s x"] by simp
  qed
qed

lemma mem_initialize_buckets:
  "mem (initialize_buckets E s) x = init_cell (buckets_addr E) 0 (mem s x) x"
  by (simp add: initialize_buckets_def mem_initialize_buckets_loop)

lemma initialize_buckets_fields [simp]:
  "initialized (initialize_buckets E s) = True"
  "mapping_index (initialize_buckets E s) = mapping_index s"
  "mappings (initialize_buckets E s) = mappings s"
  "errno (initialize_buckets E s) = errno s"
  by (simp_all add: initialize_buckets_def)

lemma get_block_from_bucket_empty:
  "size_at s (next_at s bkt) = 0 \<Longrightarrow> get_block_from_bucket E s bkt sz = Some (s, NULL)"
  unfolding get_block_from_bucket_def
  by (subst get_block_from_bucket_loop.simps) simp

lemma get_block_from_buckets_loop_skip:
  "i \<le> k \<Longrightarrow> k \<le> 166 \<Longrightarrow>
   (\<forall>j. i \<le> j \<and> j < k \<longrightarrow> size_at s (next_at s (bucket E j)) = 0) \<Longrightarrow>
   get_block_from_buckets_loop E s i sz = get_block_from_buckets_loop E s k sz"
proof (induction "k - i" arbitrary: i)
  case 0
  then show ?case by simp
next
  case (Suc n)
  then have ik: "i < k" by simp
  then have i: "i < NUM_BUCKETS" "Suc i mod 256 = Suc i" using Suc.prems(2) by (simp_all add: NUM_BUCKETS_def)
  have e: "get_block_from_bucket E s (bucket E i) sz = Some (s, NULL)"
    using Suc.prems(3) ik by (intro get_block_from_bucket_empty) simp
  have "get_block_from_buckets_loop E s i sz = get_block_from_buckets_loop E s (i + 1) sz"
    by (subst get_block_from_buckets_loop.simps) (simp add: i e)
  also have "\<dots> = get_block_from_buckets_loop E s k sz"
    using Suc.hyps(2) Suc.prems ik by (intro Suc.hyps(1)) simp_all
  finally show ?case .
qed

lemma get_block_from_buckets_loop_end:
  "get_block_from_buckets_loop E s 166 sz = Some (s, NULL)"
  by (subst get_block_from_buckets_loop.simps) (simp add: NUM_BUCKETS_def)

lemma aligned_8: "aligned 8 = 32"
  by (simp add: aligned_def round_up_power_of_two_def u64_def MEM_UNIT_def METADATA_OFFSET_def
      sizeof_footer_t_def MIN_ALLOC_def sizeof_header_t_def)

lemma round_up_32_U: "round_up_power_of_two 32 131072 = 131072"
  by (simp add: round_up_power_of_two_def u64_def)

lemma bucket_index_32: "bucket_index_from_size 32 = Some 4"
  by (simp add: bucket_index_from_size_def MEM_UNIT_def)

lemma bucket_index_131040: "bucket_index_from_size 131040 = Some 134"
  by (simp add: bucket_index_from_size_def MEM_UNIT_def bucket_index_loop.simps)

lemma init_empty:
  "j < 166 \<Longrightarrow> size_at (initialize_buckets E s) (next_at (initialize_buckets E s) (bucket E j)) = 0"
proof -
  assume j: "j < 166"
  let ?B = "buckets_addr E"
  have a: "(?B + 24 * j + 8 - ?B) mod 24 = 8" "(?B + 24 * j - ?B) mod 24 = 0" by simp_all
  have n: "next_at (initialize_buckets E s) (bucket E j) = bucket E j"
    using j a by (simp add: next_at_def mem_initialize_buckets init_cell_def bucket_def sizeof_header_t_def)
  show ?thesis unfolding n
    using j a by (simp add: size_at_def mem_initialize_buckets init_cell_def bucket_def sizeof_header_t_def hdr_size_def)
qed

lemma cold_scan: "get_block_from_buckets E (initialize_buckets E cold) 32 = Some (initialize_buckets E cold, NULL)"
proof -
  have "get_block_from_buckets_loop E (initialize_buckets E cold) 4 32
      = get_block_from_buckets_loop E (initialize_buckets E cold) 166 32"
    by (rule get_block_from_buckets_loop_skip) (simp_all add: init_empty)
  then show ?thesis
    by (simp add: get_block_from_buckets_def bucket_index_32 get_block_from_buckets_loop_end)
qed

lemma insert_into_bucket_loop_stop:
  "size_at s (next_at s pre) = 0 \<or> size_at s (next_at s pre) > size_at s b \<Longrightarrow>
   insert_into_bucket_loop s b pre = Some pre"
  by (subst insert_into_bucket_loop.simps) (simp add: Let_def)

lemma insert_into_bucket_loop_step:
  "size_at s (next_at s pre) \<noteq> 0 \<Longrightarrow> size_at s (next_at s pre) \<le> size_at s b \<Longrightarrow>
   insert_into_bucket_loop s b pre = insert_into_bucket_loop s b (next_at s pre)"
  by (subst insert_into_bucket_loop.simps) (simp add: Let_def)

lemma get_block_from_bucket_loop_end:
  "size_at s block = 0 \<Longrightarrow> get_block_from_bucket_loop E s block sz = Some (s, NULL)"
  by (subst get_block_from_bucket_loop.simps) simp

lemma get_block_from_bucket_loop_hit:
  "size_at s block > 0 \<Longrightarrow> size_at s block \<ge> sz \<Longrightarrow>
   get_block_from_bucket_loop E s block sz = adjusted_block E (remove_from_bucket s block) block sz"
  by (subst get_block_from_bucket_loop.simps) simp

lemma get_block_from_bucket_loop_step:
  "size_at s block > 0 \<Longrightarrow> size_at s block < sz \<Longrightarrow>
   get_block_from_bucket_loop E s block sz = get_block_from_bucket_loop E s (next_at s block) sz"
  by (subst get_block_from_bucket_loop.simps) simp

lemma zero_fill_fields [simp]:
  "mem (zero_fill s a len) x = (if a \<le> x \<and> x < a + len then 0 else mem s x)"
  "initialized (zero_fill s a len) = initialized s"
  "mapping_index (zero_fill s a len) = mapping_index s"
  "mappings (zero_fill s a len) = mappings s"
  "errno (zero_fill s a len) = errno s"
  by (simp_all add: zero_fill_def)

lemmas field_defs = size_at_def mapping_at_def free_at_def next_at_def prev_at_def
  set_size_def set_mapping_def set_free_def set_next_def set_prev_def

lemma cold_fields [simp]: "mem cold x = 0" "initialized cold = False" "mapping_index cold = 0"
  "mappings cold i = (0, 0)" "errno cold = 0"
  by (simp_all add: cold_def)

lemma hdr_zero [simp]: "hdr_size 0 = 0" "hdr_mapping 0 = 0" "\<not> hdr_free 0"
  by (simp_all add: hdr_size_def hdr_mapping_def hdr_free_def)

lemma hdr_numeral [simp]:
  "hdr_size (numeral n) = numeral n mod 2 ^ 48"
  "hdr_mapping (numeral n) = (numeral n div 2 ^ 48) mod 2 ^ 15"
  "hdr_free (numeral n) = ((numeral n div 2 ^ 63) mod 2 = (1::nat))"
  "with_size (numeral n) v = (numeral n div 2 ^ 48) * 2 ^ 48 + v mod 2 ^ 48"
  "with_size 0 v = v mod 2 ^ 48"
  "with_mapping (numeral n) v = numeral n mod 2 ^ 48 + (v mod 2 ^ 15) * 2 ^ 48 + ((numeral n div 2 ^ 63) mod 2) * 2 ^ 63"
  "with_free (numeral n) b = numeral n mod 2 ^ 63 + (if b then 2 ^ 63 else 0)"
  by (simp_all add: hdr_size_def hdr_mapping_def hdr_free_def with_size_def with_mapping_def with_free_def)

lemmas eval_consts = Let_def NULL_def MIN_ALLOC_def sizeof_header_t_def sizeof_footer_t_def
  METADATA_OFFSET_def LOG2_NUM_MAPPINGS_def NUM_BUCKETS_def MMAP_UNIT_def
  add64_nowrap sub64_nowrap field_defs

lemma stores_simps [simp]: "stores s [] = s" "stores s ((k, v) # kvs) = stores (store s k v) kvs"
  by (simp_all add: stores_def)

lemma state_eqI:
  "(\<And>x. mem s x = mem t x) \<Longrightarrow> initialized s = initialized t \<Longrightarrow> mapping_index s = mapping_index t
   \<Longrightarrow> mappings s = mappings t \<Longrightarrow> errno s = errno t \<Longrightarrow> (s::state) = t"
  by (rule state.equality) (auto)

section \<open>The heap invariant\<close>

lemma chain_append:
  "A \<noteq> [] \<Longrightarrow> B \<noteq> [] \<Longrightarrow>
   chain s (A @ B) \<longleftrightarrow> chain s A \<and> next_at s (last A) = hd B \<and> prev_at s (hd B) = last A \<and> chain s B"
proof (induction A rule: chain.induct[of _ s])
  case (1 s' x y zs)
  then show ?case by (cases B) auto
next
  case (2 s' x)
  then show ?case by (cases B) auto
qed auto

lemma chain_frame:
  assumes "\<forall>x \<in> set (butlast c). mem s' (x + 8) = mem s (x + 8)"
    and "\<forall>x \<in> set (tl c). mem s' (x + 16) = mem s (x + 16)"
  shows "chain s' c = chain s c"
  using assms
proof (induction c rule: chain.induct[of _ s])
  case (1 s'' x y zs)
  then show ?case by (auto simp: next_at_def prev_at_def)
qed auto


lemma far_ne:
  assumes "far x y"
  shows "x \<noteq> y" "x + 8 \<noteq> y" "x + 16 \<noteq> y" "x \<noteq> y + 8" "x \<noteq> y + 16"
    "x + 8 \<noteq> y + 16" "x + 16 \<noteq> y + 8" "y + 8 \<noteq> x" "y + 16 \<noteq> x" "y \<noteq> x + 8" "y \<noteq> x + 16"
    "y + 8 \<noteq> x + 16" "y + 16 \<noteq> x + 8" "y \<noteq> x"
  using assms by (auto simp: far_def)

lemma far_sym: "far x y \<Longrightarrow> far y x"
  by (auto simp: far_def)

lemma insert_into_bucket_loop_spec:
  assumes "chain s (p # xs @ [h])" "size_at s h = 0" "\<forall>x \<in> set xs. size_at s x > 0"
  shows "insert_into_bucket_loop s b p = Some (last (p # takeWhile (\<lambda>x. size_at s x \<le> size_at s b) xs))"
  using assms
proof (induction xs arbitrary: p)
  case Nil
  then show ?case by (subst insert_into_bucket_loop.simps) (simp add: Let_def)
next
  case (Cons x xs)
  show ?case
  proof (cases "size_at s x \<le> size_at s b")
    case True
    with Cons.prems have "insert_into_bucket_loop s b p = insert_into_bucket_loop s b x"
      by (subst insert_into_bucket_loop.simps) (auto simp add: Let_def)
    also have "\<dots> = Some (last (x # takeWhile (\<lambda>x. size_at s x \<le> size_at s b) xs))"
      using Cons.prems by (intro Cons.IH) auto
    finally show ?thesis using True by simp
  next
    case False
    with Cons.prems show ?thesis
      by (subst insert_into_bucket_loop.simps) (auto simp add: Let_def)
  qed
qed

text \<open>Linking b in between the two parts A and B of a chain.\<close>

lemma chain_link_in:
  assumes c: "chain s (A @ B)" and ne: "A \<noteq> []" "B \<noteq> []"
    and dA: "last A \<notin> set (butlast A)" "hd B \<notin> set (tl A)"
    and dB: "last A \<notin> set (butlast B)" "hd B \<notin> set (tl B)"
    and fb: "\<forall>x \<in> set A \<union> set B. far x b"
    and sp: "\<forall>x \<in> set A \<union> set B. \<forall>y \<in> set A \<union> set B. x = y \<or> far x y"
  shows "chain (stores s [(b + 16, last A), (b + 8, hd B), (last A + 8, b), (hd B + 16, b)]) (A @ b # B)"
proof -
  let ?pre = "last A" and ?nxt = "hd B"
  let ?s' = "stores s [(b + 16, ?pre), (b + 8, ?nxt), (?pre + 8, b), (?nxt + 16, b)]"
  have pin: "?pre \<in> set A" and nin: "?nxt \<in> set B" using ne by auto
  have fpb: "far ?pre b" and fnb: "far ?nxt b" using fb pin nin by auto
  have pn: "?pre = ?nxt \<or> far ?pre ?nxt" using sp pin nin by auto
  have cA: "chain s A" and cB: "chain s B" using c ne by (simp_all add: chain_append)
  have m: "mem ?s' c = mem s c" if "c \<noteq> b + 16" "c \<noteq> b + 8" "c \<noteq> ?pre + 8" "c \<noteq> ?nxt + 16" for c
    using that by simp
  have "chain ?s' A = chain s A"
  proof (rule chain_frame; rule ballI)
    fix x assume x: "x \<in> set (butlast A)"
    then have xa: "x \<in> set A" by (rule in_set_butlastD)
    then have "far x b" "x = ?nxt \<or> far x ?nxt" using fb sp nin by auto
    moreover have "x \<noteq> ?pre" using x dA(1) by auto
    ultimately show "mem ?s' (x + 8) = mem s (x + 8)"
      by (intro m) (auto simp: far_def)
  next
    fix x assume x: "x \<in> set (tl A)"
    then have xa: "x \<in> set A" by (rule list.set_sel(2) [rotated]) (use ne in auto)
    then have "far x b" "x = ?pre \<or> far x ?pre" using fb sp pin by auto
    moreover have "x \<noteq> ?nxt" using x dA(2) by auto
    ultimately show "mem ?s' (x + 16) = mem s (x + 16)"
      by (intro m) (auto simp: far_def)
  qed
  moreover have "chain ?s' B = chain s B"
  proof (rule chain_frame; rule ballI)
    fix x assume x: "x \<in> set (butlast B)"
    then have xa: "x \<in> set B" by (rule in_set_butlastD)
    then have "far x b" "x = ?nxt \<or> far x ?nxt" using fb sp nin by auto
    moreover have "x \<noteq> ?pre" using x dB(1) by auto
    ultimately show "mem ?s' (x + 8) = mem s (x + 8)"
      by (intro m) (auto simp: far_def)
  next
    fix x assume x: "x \<in> set (tl B)"
    then have xa: "x \<in> set B" by (rule list.set_sel(2) [rotated]) (use ne in auto)
    then have "far x b" "x = ?pre \<or> far x ?pre" using fb sp pin by auto
    moreover have "x \<noteq> ?nxt" using x dB(2) by auto
    ultimately show "mem ?s' (x + 16) = mem s (x + 16)"
      by (intro m) (auto simp: far_def)
  qed
  moreover have "next_at ?s' ?pre = b" "prev_at ?s' b = ?pre" "next_at ?s' b = ?nxt" "prev_at ?s' ?nxt = b"
    using fpb fnb pn by (auto simp: next_at_def prev_at_def far_def)
  ultimately show ?thesis
    using cA cB ne chain_append [of A "b # B" ?s'] chain_append [of "[b]" B ?s'] by simp
qed


text \<open>Taking b out from between the two parts A and B of a chain.\<close>

lemma chain_link_out:
  assumes c: "chain s (A @ b # B)" and ne: "A \<noteq> []" "B \<noteq> []"
    and dA: "last A \<notin> set (butlast A)" "hd B \<notin> set (tl A)"
    and dB: "last A \<notin> set (butlast B)" "hd B \<notin> set (tl B)"
    and sp: "\<forall>x \<in> set A \<union> set B. \<forall>y \<in> set A \<union> set B. x = y \<or> far x y"
  shows "chain (stores s [(last A + 8, hd B), (hd B + 16, last A)]) (A @ B)"
proof -
  let ?pre = "last A" and ?nxt = "hd B"
  let ?s' = "stores s [(?pre + 8, ?nxt), (?nxt + 16, ?pre)]"
  have pin: "?pre \<in> set A" and nin: "?nxt \<in> set B" using ne by auto
  have pn: "?pre = ?nxt \<or> far ?pre ?nxt" using sp pin nin by auto
  have cA: "chain s A" and cB: "chain s B"
    using c ne chain_append [of A "b # B" s] chain_append [of "[b]" B s] by simp_all
  have m: "mem ?s' c = mem s c" if "c \<noteq> ?pre + 8" "c \<noteq> ?nxt + 16" for c
    using that by simp
  have "chain ?s' A = chain s A"
  proof (rule chain_frame; rule ballI)
    fix x assume x: "x \<in> set (butlast A)"
    then have xa: "x \<in> set A" by (rule in_set_butlastD)
    then have "x = ?nxt \<or> far x ?nxt" using sp nin by auto
    moreover have "x \<noteq> ?pre" using x dA(1) by auto
    ultimately show "mem ?s' (x + 8) = mem s (x + 8)"
      by (intro m) (auto simp: far_def)
  next
    fix x assume x: "x \<in> set (tl A)"
    then have xa: "x \<in> set A" by (rule list.set_sel(2) [rotated]) (use ne in auto)
    then have "x = ?pre \<or> far x ?pre" using sp pin by auto
    moreover have "x \<noteq> ?nxt" using x dA(2) by auto
    ultimately show "mem ?s' (x + 16) = mem s (x + 16)"
      by (intro m) (auto simp: far_def)
  qed
  moreover have "chain ?s' B = chain s B"
  proof (rule chain_frame; rule ballI)
    fix x assume x: "x \<in> set (butlast B)"
    then have xa: "x \<in> set B" by (rule in_set_butlastD)
    then have "x = ?nxt \<or> far x ?nxt" using sp nin by auto
    moreover have "x \<noteq> ?pre" using x dB(1) by auto
    ultimately show "mem ?s' (x + 8) = mem s (x + 8)"
      by (intro m) (auto simp: far_def)
  next
    fix x assume x: "x \<in> set (tl B)"
    then have xa: "x \<in> set B" by (rule list.set_sel(2) [rotated]) (use ne in auto)
    then have "x = ?pre \<or> far x ?pre" using sp pin by auto
    moreover have "x \<noteq> ?nxt" using x dB(2) by auto
    ultimately show "mem ?s' (x + 16) = mem s (x + 16)"
      by (intro m) (auto simp: far_def)
  qed
  moreover have "next_at ?s' ?pre = ?nxt" "prev_at ?s' ?nxt = ?pre"
    using pn by (auto simp: next_at_def prev_at_def far_def)
  ultimately show ?thesis
    using cA cB ne chain_append [of A B ?s'] by simp
qed

lemma chain_neighbours:
  assumes "chain s (A @ b # B)" "A \<noteq> []" "B \<noteq> []"
  shows "prev_at s b = last A" "next_at s b = hd B"
  using assms chain_append [of A "b # B" s] chain_append [of "[b]" B s] by simp_all

lemma sorted_insert_by:
  assumes "sorted (map f L)" "f b = v"
  shows "sorted (map f (takeWhile (\<lambda>x. f x \<le> v) L @ b # dropWhile (\<lambda>x. f x \<le> v) L))"
  using assms
proof (induction L)
  case Nil
  then show ?case by simp
next
  case (Cons a L)
  show ?case
  proof (cases "f a \<le> v")
    case True
    have "\<forall>x \<in> set (takeWhile (\<lambda>x. f x \<le> v) L @ b # dropWhile (\<lambda>x. f x \<le> v) L). f a \<le> f x"
    proof
      fix x assume "x \<in> set (takeWhile (\<lambda>x. f x \<le> v) L @ b # dropWhile (\<lambda>x. f x \<le> v) L)"
      then have "x = b \<or> x \<in> set L"
        by (auto dest: set_takeWhileD set_dropWhileD)
      then show "f a \<le> f x" using Cons.prems True by auto
    qed
    then show ?thesis using True Cons by auto
  next
    case False
    then have "\<forall>x \<in> set L. v \<le> f x" using Cons.prems(1) by auto
    then show ?thesis using False Cons.prems by auto
  qed
qed

lemma distinct_last_butlast: "distinct xs \<Longrightarrow> xs \<noteq> [] \<Longrightarrow> last xs \<notin> set (butlast xs)"
  by (metis append_butlast_last_id distinct_append disjoint_iff list.set_intros(1))

lemma distinct_hd_tl: "distinct xs \<Longrightarrow> xs \<noteq> [] \<Longrightarrow> hd xs \<notin> set (tl xs)"
  by (cases xs) auto

lemma spreadD: "spread X \<Longrightarrow> x \<in> X \<Longrightarrow> y \<in> X \<Longrightarrow> x = y \<or> far x y"
  by (auto simp: spread_def)

lemma spread_mono: "spread X \<Longrightarrow> Y \<subseteq> X \<Longrightarrow> spread Y"
  by (auto simp: spread_def)

lemma set_free_fields [simp]:
  "mem (set_free s b v) x = (if x = b then with_free (mem s b) v else mem s x)"
  "initialized (set_free s b v) = initialized s" "mapping_index (set_free s b v) = mapping_index s"
  "mappings (set_free s b v) = mappings s" "errno (set_free s b v) = errno s"
  by (simp_all add: set_free_def)

lemma insert_into_bucket_ring:
  assumes ring: "chain s (h # L @ [h])" and h0: "size_at s h = 0"
    and pos: "\<forall>x \<in> set L. 0 < size_at s x"
    and d: "distinct (h # L)" and sp: "spread (set (h # L))" and fb: "\<forall>x \<in> set (h # L). far x b"
  defines "xs \<equiv> takeWhile (\<lambda>x. size_at s x \<le> size_at s b) L"
    and "ys \<equiv> dropWhile (\<lambda>x. size_at s x \<le> size_at s b) L"
  defines "s' \<equiv> set_free (stores s [(b + 16, last (h # xs)), (b + 8, hd (ys @ [h])),
                     (last (h # xs) + 8, b), (hd (ys @ [h]) + 16, b)]) b True"
  shows "insert_into_bucket s b h = Some s'" and "chain s' (h # xs @ b # ys @ [h])"
proof -
  define A where "A = h # xs"
  define B where "B = ys @ [h]"
  define pre where "pre = last A"
  define nxt where "nxt = hd B"
  define t where "t = stores s [(b + 16, pre), (b + 8, nxt), (pre + 8, b), (nxt + 16, b)]"
  have s': "s' = set_free t b True"
    by (simp add: s'_def t_def pre_def nxt_def A_def B_def del: stores_simps last.simps)
  have ne: "A \<noteq> []" "B \<noteq> []" by (simp_all add: A_def B_def)
  have L: "L = xs @ ys" by (simp add: xs_def ys_def)
  have AB: "set A \<union> set B = set (h # L)" using L by (auto simp: A_def B_def)
  have loop: "insert_into_bucket_loop s b h = Some pre"
    using insert_into_bucket_loop_spec [OF ring h0 pos, of b] by (simp add: xs_def pre_def A_def)
  have c: "chain s (A @ B)" using ring L by (simp add: A_def B_def)
  have pin: "pre \<in> set A" and nin: "nxt \<in> set B"
    using ne by (simp_all add: pre_def nxt_def)
  have fpb: "far pre b" and fnb: "far nxt b" using fb pin nin AB by blast+
  have nx: "next_at s pre = nxt"
    using c chain_append [OF ne, of s] by (simp add: pre_def nxt_def)
  show st: "insert_into_bucket s b h = Some s'"
    unfolding insert_into_bucket_def loop s' t_def
    using fpb fnb nx
    by (auto simp add: Let_def set_prev_def set_next_def next_at_def far_def)
  have dA: "distinct A" and dB: "distinct B" using d L by (auto simp: A_def B_def)
  have sp': "\<forall>x \<in> set A \<union> set B. \<forall>y \<in> set A \<union> set B. x = y \<or> far x y"
    and fb': "\<forall>x \<in> set A \<union> set B. far x b"
    using sp fb unfolding AB by (simp_all add: spread_def)
  have c1: "chain t (A @ b # B)"
    unfolding t_def pre_def nxt_def
  proof (rule chain_link_in [OF c ne _ _ _ _ fb' sp'])
    show "last A \<notin> set (butlast A)" using dA ne by (intro distinct_last_butlast)
    show "hd B \<notin> set (tl A)" using d L by (cases ys) (auto simp: A_def B_def)
    show "last A \<notin> set (butlast B)" using d L by (cases xs rule: rev_cases) (auto simp: A_def B_def)
    show "hd B \<notin> set (tl B)" using dB ne by (intro distinct_hd_tl)
  qed
  have "chain s' (A @ b # B) = chain t (A @ b # B)"
    unfolding s'
  proof (rule chain_frame; rule ballI)
    fix x assume "x \<in> set (butlast (A @ b # B))"
    then have "x \<in> set (A @ b # B)" by (rule in_set_butlastD)
    then have "x = b \<or> x \<in> set (h # L)" using AB by auto
    then have "b \<noteq> x + 8" using fb by (auto simp: far_def)
    then show "mem (set_free t b True) (x + 8) = mem t (x + 8)" by simp
  next
    fix x assume "x \<in> set (tl (A @ b # B))"
    then have "x \<in> set (A @ b # B)" by (rule list.set_sel(2) [rotated]) (use ne in auto)
    then have "x = b \<or> x \<in> set (h # L)" using AB by auto
    then have "b \<noteq> x + 16" using fb by (auto simp: far_def)
    then show "mem (set_free t b True) (x + 16) = mem t (x + 16)" by simp
  qed
  with c1 show "chain s' (h # xs @ b # ys @ [h])" by (simp add: A_def B_def)
qed

lemma remove_from_bucket_ring:
  assumes ring: "chain s (h # xs @ b # ys @ [h])" and d: "distinct (h # xs @ b # ys)"
    and sp: "spread (set (h # xs @ b # ys))"
  defines "s' \<equiv> stores s [(last (h # xs) + 8, hd (ys @ [h])), (hd (ys @ [h]) + 16, last (h # xs))]"
  shows "remove_from_bucket s b = s'" and "chain s' (h # xs @ ys @ [h])"
proof -
  define A where "A = h # xs"
  define B where "B = ys @ [h]"
  define pre where "pre = last A"
  define nxt where "nxt = hd B"
  have s': "s' = stores s [(pre + 8, nxt), (nxt + 16, pre)]"
    by (simp add: s'_def pre_def nxt_def A_def B_def del: stores_simps last.simps)
  have ne: "A \<noteq> []" "B \<noteq> []" by (simp_all add: A_def B_def)
  have c: "chain s (A @ b # B)" using ring by (simp add: A_def B_def)
  have nb: "prev_at s b = pre" "next_at s b = nxt"
    using chain_neighbours [OF c ne] by (simp_all add: pre_def nxt_def)
  have pin: "pre \<in> set A" and nin: "nxt \<in> set B"
    using ne by (simp_all add: pre_def nxt_def)
  have sub: "set A \<union> set B \<subseteq> set (h # xs @ b # ys)" by (auto simp: A_def B_def)
  have "b \<notin> set A" "b \<notin> set B" using d by (auto simp: A_def B_def)
  then have "pre \<noteq> b" "nxt \<noteq> b" using pin nin by auto
  moreover have "b \<in> set (h # xs @ b # ys)" by simp
  moreover have "pre \<in> set (h # xs @ b # ys)" "nxt \<in> set (h # xs @ b # ys)" using pin nin sub by auto
  ultimately have fpb: "far pre b" "far nxt b"
    using sp unfolding spread_def by blast+
  show "remove_from_bucket s b = s'"
    unfolding remove_from_bucket_def s' using nb fpb
    by (auto simp add: Let_def set_prev_def set_next_def next_at_def prev_at_def far_def)
  have sp': "\<forall>x \<in> set A \<union> set B. \<forall>y \<in> set A \<union> set B. x = y \<or> far x y"
    using sp sub unfolding spread_def by blast
  have "chain s' (A @ B)" unfolding s' pre_def nxt_def
  proof (rule chain_link_out [OF c ne _ _ _ _ sp'])
    show "last A \<notin> set (butlast A)" using d ne by (intro distinct_last_butlast) (auto simp: A_def)
    show "hd B \<notin> set (tl A)" using d by (cases ys) (auto simp: A_def B_def)
    show "last A \<notin> set (butlast B)" using d by (cases xs rule: rev_cases) (auto simp: A_def B_def)
    show "hd B \<notin> set (tl B)" using d ne by (intro distinct_hd_tl) (auto simp: B_def)
  qed
  then show "chain s' (h # xs @ ys @ [h])" by (simp add: A_def B_def)
qed

lemma tiles_append:
  "tiles s m lo (xs @ ys) hi \<longleftrightarrow> (\<exists>mid. tiles s m lo xs mid \<and> tiles s m mid ys hi)"
  by (induction xs arbitrary: lo) auto

lemma tiles_bounds:
  "tiles s m lo bs hi \<Longrightarrow> lo \<le> hi \<and> (\<forall>b \<in> set bs. lo \<le> b \<and> b + size_at s b \<le> hi \<and> block_ok s m b)"
proof (induction bs arbitrary: lo)
  case Nil
  then show ?case by simp
next
  case (Cons a bs)
  from Cons.prems have a: "a = lo" "block_ok s m a" and t: "tiles s m (lo + size_at s a) bs hi" by auto
  from Cons.IH [OF t] show ?case using a by (auto simp: block_ok_def)
qed

lemma tiles_disjoint:
  "tiles s m lo bs hi \<Longrightarrow> b \<in> set bs \<Longrightarrow> b' \<in> set bs \<Longrightarrow> b \<noteq> b' \<Longrightarrow>
   b + size_at s b \<le> b' \<or> b' + size_at s b' \<le> b"
proof (induction bs arbitrary: lo)
  case Nil
  then show ?case by simp
next
  case (Cons a bs)
  from Cons.prems have a: "a = lo" and t: "tiles s m (lo + size_at s a) bs hi" by auto
  note bd = tiles_bounds [OF t]
  show ?case
  proof (cases "b = a")
    case True
    with Cons.prems have "b' \<in> set bs" by auto
    with bd True a show ?thesis by auto
  next
    case False
    show ?thesis
    proof (cases "b' = a")
      case True
      with Cons.prems False have "b \<in> set bs" by auto
      with bd True a show ?thesis by auto
    next
      case b'a: False
      with False Cons.prems Cons.IH [OF t] show ?thesis by auto
    qed
  qed
qed

lemma tiles_distinct: "tiles s m lo bs hi \<Longrightarrow> distinct bs"
proof (induction bs arbitrary: lo)
  case Nil
  then show ?case by simp
next
  case (Cons a bs)
  from Cons.prems have a: "a = lo" "block_ok s m a" and t: "tiles s m (lo + size_at s a) bs hi" by auto
  from tiles_bounds [OF t] a have "a \<notin> set bs" by (auto simp: block_ok_def)
  with Cons.IH [OF t] show ?case by simp
qed

lemma tiles_frame:
  assumes "\<forall>b \<in> set bs. mem s' b = mem s b \<and> mem s' (b + size_at s b - 8) = mem s (b + size_at s b - 8)"
  shows "tiles s' m lo bs hi = tiles s m lo bs hi"
  using assms
  by (induction bs arbitrary: lo) (auto simp: block_ok_def size_at_def mapping_at_def)

lemma tiles_split:
  assumes "tiles s m lo bs hi" "b \<in> set bs"
  shows "\<exists>pre post. bs = pre @ b # post \<and> tiles s m lo pre b \<and> block_ok s m b \<and>
           tiles s m (b + size_at s b) post hi"
proof -
  from assms(2) obtain pre post where bs: "bs = pre @ b # post" by (auto simp: in_set_conv_decomp)
  with assms(1) show ?thesis by (auto simp: tiles_append)
qed

lemma tiles_next:
  assumes "tiles s m lo bs hi" "b \<in> set bs" "b + size_at s b < hi"
  shows "b + size_at s b \<in> set bs"
proof -
  from tiles_split [OF assms(1,2)] obtain pre post where
    bs: "bs = pre @ b # post" and t: "tiles s m (b + size_at s b) post hi" by auto
  with assms(3) show ?thesis by (cases post) auto
qed

lemma tiles_last:
  "tiles s m lo bs hi \<Longrightarrow> bs \<noteq> [] \<Longrightarrow> last bs + size_at s (last bs) = hi"
  by (induction bs arbitrary: lo) (auto split: if_splits)

lemma tiles_prev:
  assumes "tiles s m lo bs hi" "b \<in> set bs" "b \<noteq> lo"
  shows "b - mem s (b - 8) \<in> set bs \<and> (b - mem s (b - 8)) + size_at s (b - mem s (b - 8)) = b"
proof -
  from tiles_split [OF assms(1,2)] obtain pre post where
    bs: "bs = pre @ b # post" and t: "tiles s m lo pre b" by auto
  from t assms(3) have ne: "pre \<noteq> []" by (cases pre) auto
  let ?c = "last pre"
  have c: "?c \<in> set pre" using ne by simp
  have e: "?c + size_at s ?c = b" using tiles_last [OF t ne] .
  have ok: "block_ok s m ?c" using tiles_bounds [OF t] c by auto
  then have "mem s (b - 8) = size_at s ?c" using e by (auto simp: block_ok_def)
  then have "b - mem s (b - 8) = ?c" using e by simp
  then show ?thesis using c e bs by simp
qed

lemma bucket_index_total:
  assumes "sz < 2 ^ 48"
  shows "\<exists>i < 166. bucket_index_from_size sz = Some i"
proof (cases "sz < 1024")
  case True
  then show ?thesis by (simp add: bucket_index_from_size_def MEM_UNIT_def)
next
  case False
  then have "2 ^ 10 \<le> sz" by simp
  moreover have "sz < 2 ^ 63" using assms by simp
  ultimately obtain k where k: "bucket_index_loop sz 10 = Some k" "10 \<le> k" "2 ^ k \<le> sz"
    using bucket_index_loop_spec [of 10 sz] by auto
  have "(2::nat) ^ k < 2 ^ 48" using k(3) assms by (rule le_less_trans)
  then have "k < 48" by (rule power_less_imp_less_exp [rotated]) simp
  then show ?thesis using False k(1) by (simp add: bucket_index_from_size_def MEM_UNIT_def)
qed

lemma size_at_bound: "size_at s b < 2 ^ 48"
  by (simp add: size_at_def hdr_size_def)

lemma ring_frame:
  assumes "\<forall>x \<in> set (h # xs). mem s' (x + 8) = mem s (x + 8) \<and> mem s' (x + 16) = mem s (x + 16)"
  shows "chain s' (h # xs @ [h]) = chain s (h # xs @ [h])"
proof (rule chain_frame; rule ballI)
  fix x assume "x \<in> set (butlast (h # xs @ [h]))"
  then have "x \<in> set (h # xs)" by (simp add: butlast_append)
  with assms show "mem s' (x + 8) = mem s (x + 8)" by blast
next
  fix x assume "x \<in> set (tl (h # xs @ [h]))"
  then have "x \<in> set (h # xs)" by auto
  with assms show "mem s' (x + 16) = mem s (x + 16)" by blast
qed

text \<open>Geometry of the blocks and sentinels under the invariant.\<close>

lemma sentinel_far: "h \<in> sentinels E \<Longrightarrow> h' \<in> sentinels E \<Longrightarrow> h = h' \<or> far h h'"
  by (auto simp: sentinels_def bucket_def sizeof_header_t_def far_def)

lemma sentinel_range:
  "h \<in> sentinels E \<Longrightarrow> buckets_addr E \<le> h \<and> h + 24 \<le> buckets_addr E + 3984"
  by (auto simp: sentinels_def bucket_def sizeof_header_t_def)

lemma bucket_sentinel [simp]: "i < 166 \<Longrightarrow> bucket E i \<in> sentinels E"
  by (simp add: sentinels_def)

lemma bucket_inj: "bucket E i = bucket E j \<longleftrightarrow> i = j"
  by (simp add: bucket_def sizeof_header_t_def)

lemma blocksD: "b \<in> blocks s T \<Longrightarrow> \<exists>m < mapping_index s. b \<in> set (T m)"
  by (auto simp: blocks_def)

lemma blocksI: "m < mapping_index s \<Longrightarrow> b \<in> set (T m) \<Longrightarrow> b \<in> blocks s T"
  by (auto simp: blocks_def)

lemma block_facts:
  assumes "registry_ok E s" "tiled s T" "m < mapping_index s" "b \<in> set (T m)"
  shows "block_ok s m b" "fst (mappings s m) \<le> b" "b + size_at s b \<le> snd (mappings s m)"
    "0 < b" "b + size_at s b \<le> 2 ^ 48" "32 \<le> size_at s b"
    "b + size_at s b \<le> buckets_addr E \<or> buckets_addr E + 3984 \<le> b"
proof -
  have t: "tiles s m (fst (mappings s m)) (T m) (snd (mappings s m))"
    using assms(2,3) by (simp add: tiled_def)
  note bd = tiles_bounds [OF t]
  show ok: "block_ok s m b" and lo: "fst (mappings s m) \<le> b" and hi: "b + size_at s b \<le> snd (mappings s m)"
    using bd assms(4) by auto
  have r: "0 < fst (mappings s m)" "snd (mappings s m) \<le> 2 ^ 48"
    "snd (mappings s m) \<le> buckets_addr E \<or> buckets_addr E + 3984 \<le> fst (mappings s m)"
    using assms(1,3) by (auto simp: registry_ok_def)
  show "0 < b" using r lo by simp
  show "b + size_at s b \<le> 2 ^ 48" using r hi by simp
  show "32 \<le> size_at s b" using ok by (simp add: block_ok_def)
  show "b + size_at s b \<le> buckets_addr E \<or> buckets_addr E + 3984 \<le> b" using r lo hi by auto
qed

lemma blocks_disjoint:
  assumes "registry_ok E s" "tiled s T" "b \<in> blocks s T" "b' \<in> blocks s T" "b \<noteq> b'"
  shows "b + size_at s b \<le> b' \<or> b' + size_at s b' \<le> b"
proof -
  from assms(3,4) obtain m m' where m: "m < mapping_index s" "b \<in> set (T m)"
    and m': "m' < mapping_index s" "b' \<in> set (T m')" by (auto simp: blocks_def)
  note f = block_facts [OF assms(1,2) m] and f' = block_facts [OF assms(1,2) m']
  show ?thesis
  proof (cases "m = m'")
    case True
    have "tiles s m (fst (mappings s m)) (T m) (snd (mappings s m))"
      using assms(2) m(1) by (simp add: tiled_def)
    from tiles_disjoint [OF this m(2) _ assms(5)] m' True show ?thesis by simp
  next
    case False
    then have "snd (mappings s m) \<le> fst (mappings s m') \<or> snd (mappings s m') \<le> fst (mappings s m)"
      using assms(1) m(1) m'(1) by (auto simp: registry_ok_def)
    with f(2,3) f'(2,3) show ?thesis by auto
  qed
qed

lemma block_sentinel:
  assumes "registry_ok E s" "tiled s T" "b \<in> blocks s T" "h \<in> sentinels E"
  shows "b + size_at s b \<le> h \<or> h + 24 \<le> b"
proof -
  from assms(3) obtain m where m: "m < mapping_index s" "b \<in> set (T m)" by (auto simp: blocks_def)
  from block_facts(7) [OF assms(1,2) m] sentinel_range [OF assms(4)] show ?thesis by auto
qed

lemma block_mapping_unique:
  assumes "registry_ok E s" "tiled s T" "m < mapping_index s" "b \<in> set (T m)"
    "m' < mapping_index s" "b \<in> set (T m')"
  shows "m = m'"
  using block_facts(1) [OF assms(1,2,3,4)] block_facts(1) [OF assms(1,2,5,6)]
  by (simp add: block_ok_def)

text \<open>All headers are apart from each other.\<close>

lemma objects_spread:
  assumes "registry_ok E s" "tiled s T"
  shows "spread (sentinels E \<union> blocks s T)"
  unfolding spread_def
proof (intro ballI)
  fix x y assume x: "x \<in> sentinels E \<union> blocks s T" and y: "y \<in> sentinels E \<union> blocks s T"
  have sz: "32 \<le> size_at s b" if "b \<in> blocks s T" for b
    using that block_facts(6) [OF assms] by (auto simp: blocks_def)
  consider "x \<in> sentinels E" "y \<in> sentinels E" | "x \<in> sentinels E" "y \<in> blocks s T"
    | "x \<in> blocks s T" "y \<in> sentinels E" | "x \<in> blocks s T" "y \<in> blocks s T"
    using x y by auto
  then show "x = y \<or> far x y"
  proof cases
    case 1
    then show ?thesis by (rule sentinel_far)
  next
    case 2
    with block_sentinel [OF assms 2(2,1)] sz [OF 2(2)] show ?thesis by (auto simp: far_def)
  next
    case 3
    with block_sentinel [OF assms 3(1,2)] sz [OF 3(1)] show ?thesis by (auto simp: far_def)
  next
    case 4
    show ?thesis
    proof (cases "x = y")
      case False
      from blocks_disjoint [OF assms 4 False] sz [OF 4(1)] sz [OF 4(2)] show ?thesis
        by (auto simp: far_def)
    qed simp
  qed
qed

lemma sentinel_not_block:
  assumes "registry_ok E s" "tiled s T" "b \<in> blocks s T"
  shows "b \<notin> sentinels E"
proof
  assume h: "b \<in> sentinels E"
  have "32 \<le> size_at s b" using assms block_facts(6) by (auto simp: blocks_def)
  with block_sentinel [OF assms h] show False by auto
qed

lemma tiles_frame':
  assumes "\<forall>b \<in> set bs. size_at s' b = size_at s b \<and> mapping_at s' b = mapping_at s b \<and>
             mem s' (b + size_at s b - 8) = mem s (b + size_at s b - 8)"
  shows "tiles s' m lo bs hi = tiles s m lo bs hi"
  using assms
  by (induction bs arbitrary: lo) (auto simp: block_ok_def)

lemma header_not_footer:
  assumes "registry_ok E s" "tiled s T" "x \<in> sentinels E \<union> blocks s T" "c \<in> blocks s T" "k < 24"
  shows "x + k \<noteq> c + size_at s c - 8"
proof -
  have c32: "32 \<le> size_at s c" using assms(1,2,4) block_facts(6) by (auto simp: blocks_def)
  show ?thesis
  proof (cases "x = c")
    case True
    with c32 assms(5) show ?thesis by simp
  next
    case False
    from assms(3) show ?thesis
    proof
      assume "x \<in> sentinels E"
      from block_sentinel [OF assms(1,2,4) this] c32 assms(5) show ?thesis by auto
    next
      assume x: "x \<in> blocks s T"
      then have "32 \<le> size_at s x" using assms(1,2) block_facts(6) by (auto simp: blocks_def)
      with blocks_disjoint [OF assms(1,2) x assms(4) False] c32 assms(5) show ?thesis by auto
    qed
  qed
qed

lemma set_insert_node:
  "set (insert_node s L i b i) = insert b (set (L i))" "j \<noteq> i \<Longrightarrow> insert_node s L i b j = L j"
proof -
  have "set (takeWhile (\<lambda>x. size_at s x \<le> size_at s b) (L i)) \<union>
        set (dropWhile (\<lambda>x. size_at s x \<le> size_at s b) (L i)) = set (L i)"
    by (metis set_append takeWhile_dropWhile_id)
  then show "set (insert_node s L i b i) = insert b (set (L i))"
    by (auto simp: insert_node_def)
qed (simp add: insert_node_def)

lemma nodes_insert_node: "i < 166 \<Longrightarrow> nodes (insert_node s L i b) = insert b (nodes L)"
proof -
  assume i: "i < 166"
  have "set (insert_node s L i b j) = (if j = i then insert b (set (L i)) else set (L j))" for j
    using set_insert_node(1) [of s L i b] set_insert_node(2) [of j i s L b] by auto
  then show ?thesis using i by (auto simp: nodes_def split: if_splits)
qed

lemma same_globals_refl [simp]: "same_globals s s"
  by (simp add: same_globals_def)

lemma same_globals_trans: "same_globals s t \<Longrightarrow> same_globals t u \<Longrightarrow> same_globals s u"
  by (simp add: same_globals_def)

lemma same_globals_store [simp]: "same_globals s (store s a v)" "same_globals s (set_free s b f)"
  by (simp_all add: same_globals_def)

lemma same_globals_stores [simp]: "same_globals s (stores s kvs)"
proof (induction kvs arbitrary: s)
  case (Cons kv kvs)
  obtain k v where "kv = (k, v)" by (cases kv)
  then show ?case using Cons [of "store s k v"] same_globals_trans [of s "store s k v"] by simp
qed simp

lemma registry_ok_same: "same_globals s s' \<Longrightarrow> registry_ok E s' = registry_ok E s"
  by (simp add: registry_ok_def same_globals_def)

lemma blocks_same: "same_globals s s' \<Longrightarrow> blocks s' T = blocks s T"
  by (simp add: blocks_def same_globals_def)

text \<open>
  A change of memory that keeps the size, mapping and footer of every block keeps the tiling.
\<close>

lemma tiled_frame:
  assumes "same_globals s s'"
    and "\<forall>b \<in> blocks s T. size_at s' b = size_at s b \<and> mapping_at s' b = mapping_at s b \<and>
             mem s' (b + size_at s b - 8) = mem s (b + size_at s b - 8)"
  shows "tiled s' T = tiled s T"
proof -
  have "tiles s' m (fst (mappings s m)) (T m) (snd (mappings s m))
      = tiles s m (fst (mappings s m)) (T m) (snd (mappings s m))" if "m < mapping_index s" for m
    using assms(2) that by (intro tiles_frame') (auto simp: blocks_def)
  then show ?thesis using assms(1) by (auto simp: tiled_def same_globals_def)
qed


lemma frame_refl [simp]: "frame W s s"
  by (simp add: frame_def)

lemma frame_trans: "frame W s t \<Longrightarrow> frame W' t u \<Longrightarrow> frame (W \<union> W') s u"
  by (auto simp: frame_def intro: same_globals_trans)

lemma frame_mono: "frame W s t \<Longrightarrow> W \<subseteq> W' \<Longrightarrow> frame W' s t"
  by (auto simp: frame_def)

lemma frame_mem: "frame W s s' \<Longrightarrow> a \<notin> W \<Longrightarrow> mem s' a = mem s a"
  by (simp add: frame_def)

lemma frame_globals: "frame W s s' \<Longrightarrow> same_globals s s'"
  by (simp add: frame_def)

lemma frame_store: "frame {a} s (store s a v)"
  by (simp add: frame_def)

lemma frame_stores: "frame (fst ` set kvs) s (stores s kvs)"
proof (induction kvs arbitrary: s)
  case (Cons kv kvs)
  obtain k v where kv: "kv = (k, v)" by (cases kv)
  have "frame ({k} \<union> fst ` set kvs) s (stores (store s k v) kvs)"
    by (rule frame_trans [OF frame_store Cons])
  then show ?case by (simp add: kv)
qed simp

lemma frame_set_free: "frame {b} s (set_free s b f)"
  by (simp add: frame_def set_free_def)

lemma spread_cells:
  assumes "spread B" "x \<in> B" "y \<in> B"
  shows "x + 8 = y + 8 \<longleftrightarrow> x = y" "x + 16 = y + 16 \<longleftrightarrow> x = y"
    "x + 8 \<noteq> y + 16" "x + 8 \<noteq> y" "x + 16 \<noteq> y"
  using spreadD [OF assms] by (auto simp: far_def)

lemma not_links:
  assumes "spread B" "x \<in> B" "A \<subseteq> B"
  shows "x \<notin> links A" "x + 8 \<in> links A \<longleftrightarrow> x \<in> A" "x + 16 \<in> links A \<longleftrightarrow> x \<in> A"
proof -
  have f: "\<forall>y \<in> A. y = x \<or> x + 24 \<le> y \<or> y + 24 \<le> x"
    using spreadD [OF assms(1,2)] assms(3) by (auto simp: far_def)
  show "x \<notin> links A" using f by (fastforce simp: links_def)
  show "x + 8 \<in> links A \<longleftrightarrow> x \<in> A" using f by (fastforce simp: links_def)
  show "x + 16 \<in> links A \<longleftrightarrow> x \<in> A" using f by (fastforce simp: links_def)
qed

lemma bucket_ring_frame:
  assumes "\<forall>x \<in> insert (bucket E j) (set xs).
     mem s' x = mem s x \<and> mem s' (x + 8) = mem s (x + 8) \<and> mem s' (x + 16) = mem s (x + 16)"
  shows "bucket_ring E s' j xs = bucket_ring E s j xs"
proof -
  have c: "chain s' (bucket E j # xs @ [bucket E j]) = chain s (bucket E j # xs @ [bucket E j])"
    using assms by (intro ring_frame) simp
  have z: "size_at s' x = size_at s x" if "x \<in> insert (bucket E j) (set xs)" for x
    using assms that by (auto simp: size_at_def)
  have m: "map (size_at s') xs = map (size_at s) xs" using z by simp
  show ?thesis unfolding bucket_ring_def c m using z by auto
qed

lemma buckets_ok_frame:
  assumes "\<forall>x \<in> sentinels E \<union> nodes L.
     mem s' x = mem s x \<and> mem s' (x + 8) = mem s (x + 8) \<and> mem s' (x + 16) = mem s (x + 16)"
  shows "buckets_ok E s' L = buckets_ok E s L"
proof -
  have r: "bucket_ring E s' j (L j) = bucket_ring E s j (L j)" if "j < 166" for j
    using assms that by (intro bucket_ring_frame) (auto simp: nodes_def)
  have z: "size_at s' x = size_at s x" if "j < 166" "x \<in> set (L j)" for x j
  proof -
    from that have "x \<in> sentinels E \<union> nodes L" by (auto simp: nodes_def)
    with assms show ?thesis by (auto simp: size_at_def)
  qed
  show ?thesis unfolding buckets_ok_def using r z by auto
qed

lemma nodes_memI: "i < 166 \<Longrightarrow> x \<in> set (L i) \<Longrightarrow> x \<in> nodes L"
  by (auto simp: nodes_def)

lemma buckets_okD:
  assumes "buckets_ok E s L" "i < 166"
  shows "chain s (bucket E i # L i @ [bucket E i])" "size_at s (bucket E i) = 0"
    "distinct (L i)" "sorted (map (size_at s) (L i))"
    "x \<in> set (L i) \<Longrightarrow> 0 < size_at s x"
    "x \<in> set (L i) \<Longrightarrow> bucket_index_from_size (size_at s x) = Some i"
    "bucket E i \<notin> set (L i)"
proof -
  from assms have r: "bucket_ring E s i (L i)"
    and ix: "\<forall>b \<in> set (L i). bucket_index_from_size (size_at s b) = Some i"
    by (auto simp: buckets_ok_def)
  from r show "chain s (bucket E i # L i @ [bucket E i])" "size_at s (bucket E i) = 0"
    "distinct (L i)" "sorted (map (size_at s) (L i))"
    by (auto simp: bucket_ring_def)
  from r have p: "\<forall>b \<in> set (L i). 0 < size_at s b" and z: "size_at s (bucket E i) = 0"
    by (auto simp: bucket_ring_def)
  from p show "x \<in> set (L i) \<Longrightarrow> 0 < size_at s x" by auto
  from ix show "x \<in> set (L i) \<Longrightarrow> bucket_index_from_size (size_at s x) = Some i" by auto
  show "bucket E i \<notin> set (L i)"
  proof
    assume "bucket E i \<in> set (L i)"
    with p have "0 < size_at s (bucket E i)" by auto
    with z show False by simp
  qed
qed

lemma node_bucket_unique:
  assumes "buckets_ok E s L" "i < 166" "j < 166" "x \<in> set (L i)" "x \<in> set (L j)"
  shows "i = j"
  using buckets_okD(6) [OF assms(1,2) assms(4)] buckets_okD(6) [OF assms(1,3) assms(5)] by simp

lemma sentinel_not_node:
  assumes "buckets_ok E s L" "h \<in> sentinels E"
  shows "h \<notin> nodes L"
proof
  assume "h \<in> nodes L"
  then obtain i where i: "i < 166" "h \<in> set (L i)" by (auto simp: nodes_def)
  from assms(2) obtain j where j: "j < 166" "h = bucket E j" by (auto simp: sentinels_def)
  from buckets_okD(5) [OF assms(1) i] buckets_okD(2) [OF assms(1) j(1)] j(2) show False by simp
qed

lemma insert_into_buckets_ok:
  assumes ok: "buckets_ok E s L" and sp: "spread (insert b (sentinels E \<union> nodes L))"
    and nb: "b \<notin> sentinels E \<union> nodes L" and pos: "0 < size_at s b"
  shows "\<exists>s' i. i < 166 \<and> bucket_index_from_size (size_at s b) = Some i \<and>
           insert_into_buckets E s b = Some s' \<and> buckets_ok E s' (insert_node s L i b) \<and>
           frame (insert b (links (insert b (sentinels E \<union> nodes L)))) s s' \<and>
           mem s' b = with_free (mem s b) True"
proof -
  let ?O = "insert b (sentinels E \<union> nodes L)"
  from bucket_index_total [OF size_at_bound] obtain i where
    i: "i < 166" "bucket_index_from_size (size_at s b) = Some i" by blast
  define h where "h = bucket E i"
  define xs where "xs = takeWhile (\<lambda>x. size_at s x \<le> size_at s b) (L i)"
  define ys where "ys = dropWhile (\<lambda>x. size_at s x \<le> size_at s b) (L i)"
  define pre where "pre = last (h # xs)"
  define nxt where "nxt = hd (ys @ [h])"
  define s' where "s' = set_free (stores s [(b + 16, pre), (b + 8, nxt), (pre + 8, b), (nxt + 16, b)]) b True"
  note D = buckets_okD [OF ok i(1), folded h_def]
  have hS: "h \<in> sentinels E" using i(1) by (simp add: h_def)
  have sub: "set (h # L i) \<subseteq> sentinels E \<union> nodes L"
    using hS i(1) by (auto intro: nodes_memI)
  have Li: "L i = xs @ ys" by (simp add: xs_def ys_def)
  have pre_in: "pre \<in> set (h # L i)"
  proof (cases "xs = []")
    case True then show ?thesis by (simp add: pre_def)
  next
    case False
    then have "last xs \<in> set xs" by simp
    with False show ?thesis by (simp add: pre_def Li)
  qed
  have nxt_in: "nxt \<in> set (h # L i)"
  proof (cases "ys = []")
    case True then show ?thesis by (simp add: nxt_def)
  next
    case False
    then have "hd ys \<in> set ys" by simp
    with False show ?thesis by (simp add: nxt_def Li)
  qed
  have far_b: "\<forall>x \<in> set (h # L i). far x b"
  proof
    fix x assume x: "x \<in> set (h # L i)"
    with sub have xo: "x \<in> sentinels E \<union> nodes L" by blast
    with nb have "x \<noteq> b" by auto
    with spreadD [OF sp, of x b] xo show "far x b" by auto
  qed
  have posL: "\<forall>x \<in> set (L i). 0 < size_at s x" using D(5) by auto
  have dh: "distinct (h # L i)" using D(3,7) by simp
  have sph: "spread (set (h # L i))" by (rule spread_mono [OF sp]) (use sub in auto)
  note R = insert_into_bucket_ring [OF D(1,2) posL dh sph far_b]
  have r: "insert_into_bucket s b h = Some s'" "chain s' (h # xs @ b # ys @ [h])"
    using R unfolding s'_def pre_def nxt_def xs_def ys_def by simp_all
  define W where "W = {b, b + 8, b + 16, pre + 8, nxt + 16}"
  have preO: "pre \<in> sentinels E \<union> nodes L" and nxtO: "nxt \<in> sentinels E \<union> nodes L"
    using pre_in nxt_in sub by blast+
  have "frame (fst ` set [(b + 16, pre), (b + 8, nxt), (pre + 8, b), (nxt + 16, b)] \<union> {b}) s s'"
    unfolding s'_def by (rule frame_trans [OF frame_stores frame_set_free])
  then have frW: "frame W s s'" by (rule frame_mono) (auto simp: W_def)
  have WO: "W \<subseteq> insert b (links ?O)" using preO nxtO by (auto simp: W_def links_def)
  have fr: "frame (insert b (links ?O)) s s'" by (rule frame_mono [OF frW WO])
  have "far pre b" "far nxt b" using far_b pre_in nxt_in by blast+
  then have "b \<noteq> pre + 8" "b \<noteq> nxt + 16" by (auto simp: far_def)
  then have memb: "mem s' b = with_free (mem s b) True"
    by (simp add: s'_def set_free_def)
  have hdr: "mem s' x = mem s x" if "x \<in> sentinels E \<union> nodes L" for x
  proof -
    have "x \<notin> links ?O" by (rule not_links(1) [OF sp]) (use that in auto)
    moreover have "x \<noteq> b" using that nb by auto
    ultimately show ?thesis using frame_mem [OF fr, of x] by simp
  qed
  have sz: "size_at s' x = size_at s x" if "x \<in> ?O" for x
    using that hdr [of x] memb by (auto simp: size_at_def)
  have lnk: "mem s' (x + 8) = mem s (x + 8) \<and> mem s' (x + 16) = mem s (x + 16)"
    if x: "x \<in> sentinels E \<union> nodes L" "x \<notin> set (h # L i)" for x
  proof -
    have xo: "x \<in> ?O" using x(1) by simp
    have ne: "x \<noteq> b" "x \<noteq> pre" "x \<noteq> nxt" using x nb pre_in nxt_in by auto
    have A: "{b, pre, nxt} \<subseteq> ?O" using preO nxtO by auto
    have "x + 8 \<notin> links {b, pre, nxt}" "x + 16 \<notin> links {b, pre, nxt}"
      using not_links(2,3) [OF sp xo A] ne by auto
    moreover have "x + 8 \<noteq> b" "x + 16 \<noteq> b"
      using spread_cells(4,5) [OF sp xo, of b] by auto
    ultimately have "x + 8 \<notin> W" "x + 16 \<notin> W" by (auto simp: W_def links_def)
    then show ?thesis using frame_mem [OF frW] by simp
  qed
  have Li': "insert_node s L i b i = xs @ b # ys" and Lj': "\<And>j. j \<noteq> i \<Longrightarrow> insert_node s L i b j = L j"
    by (simp_all add: insert_node_def xs_def ys_def)
  have set': "set (xs @ b # ys) = insert b (set (L i))" by (auto simp: Li)
  have ring_i: "bucket_ring E s' i (xs @ b # ys)"
  proof -
    have 1: "chain s' (bucket E i # (xs @ b # ys) @ [bucket E i])" using r(2) by (simp add: h_def)
    have 2: "size_at s' (bucket E i) = 0" using sz [of h] hS D(2) by (simp add: h_def)
    have inO: "x \<in> ?O" if "x \<in> set (xs @ b # ys)" for x
      using that sub unfolding set' by auto
    have 3: "\<forall>x \<in> set (xs @ b # ys). 0 < size_at s' x"
    proof
      fix x assume x: "x \<in> set (xs @ b # ys)"
      then have "x = b \<or> x \<in> set (L i)" unfolding set' by simp
      then have "0 < size_at s x" using pos D(5) by auto
      then show "0 < size_at s' x" using sz [OF inO [OF x]] by simp
    qed
    have "b \<notin> set (L i)" using nb i(1) by (auto intro: nodes_memI)
    then have 4: "distinct (xs @ b # ys)" using D(3) by (auto simp: Li)
    have m: "map (size_at s') (xs @ b # ys) = map (size_at s) (xs @ b # ys)"
      by (rule map_cong [OF refl]) (use sz inO in blast)
    have "sorted (map (size_at s) (xs @ b # ys))"
      unfolding xs_def ys_def by (rule sorted_insert_by [OF D(4) refl])
    then have 5: "sorted (map (size_at s') (xs @ b # ys))" unfolding m .
    show ?thesis unfolding bucket_ring_def using 1 2 3 4 5 by blast
  qed
  have ok': "buckets_ok E s' (insert_node s L i b)"
    unfolding buckets_ok_def
  proof (intro allI impI conjI)
    fix j :: nat assume j: "j < 166"
    show "bucket_ring E s' j (insert_node s L i b j)"
    proof (cases "j = i")
      case True
      then show ?thesis using ring_i Li' by simp
    next
      case False
      have "bucket_ring E s' j (L j) = bucket_ring E s j (L j)"
      proof (rule bucket_ring_frame, rule ballI)
        fix x assume x: "x \<in> insert (bucket E j) (set (L j))"
        then have xo: "x \<in> sentinels E \<union> nodes L" using j by (auto intro: nodes_memI)
        have "x \<notin> set (h # L i)"
        proof (cases "x = bucket E j")
          case True
          then have "x \<noteq> h" using False by (simp add: h_def bucket_inj)
          moreover have "x \<notin> nodes L" using sentinel_not_node [OF ok, of x] True j by simp
          ultimately show ?thesis using i(1) by (auto intro: nodes_memI)
        next
          case F: False
          with x have xj: "x \<in> set (L j)" by simp
          then have "x \<notin> set (L i)" using node_bucket_unique [OF ok j i(1) xj] False by auto
          moreover have "x \<noteq> h" using sentinel_not_node [OF ok hS] xj j by (auto intro: nodes_memI)
          ultimately show ?thesis by simp
        qed
        with hdr [OF xo] lnk [OF xo]
        show "mem s' x = mem s x \<and> mem s' (x + 8) = mem s (x + 8) \<and> mem s' (x + 16) = mem s (x + 16)"
          by simp
      qed
      then show ?thesis using buckets_ok_def ok j Lj' [OF False] by (simp add: buckets_ok_def)
    qed
  next
    fix j :: nat assume j: "j < 166"
    show "\<forall>x \<in> set (insert_node s L i b j). bucket_index_from_size (size_at s' x) = Some j"
    proof
      fix x assume x: "x \<in> set (insert_node s L i b j)"
      show "bucket_index_from_size (size_at s' x) = Some j"
      proof (cases "x = b")
        case True
        have "j = i"
        proof (rule ccontr)
          assume "j \<noteq> i"
          with x True have "b \<in> set (L j)" by (simp add: Lj')
          with nb j show False by (auto intro: nodes_memI)
        qed
        then show ?thesis using True sz [of b] i(2) by simp
      next
        case False
        with x have xj: "x \<in> set (L j)"
          by (cases "j = i") (auto simp: Li' Lj' Li)
        then have "x \<in> ?O" using j by (auto intro: nodes_memI)
        then show ?thesis using sz [of x] buckets_okD(6) [OF ok j xj] by simp
      qed
    qed
  qed
  have "insert_into_buckets E s b = Some s'"
    using r(1) i(2) by (simp add: insert_into_buckets_def h_def)
  with i ok' fr memb show ?thesis by blast
qed


lemma nodes_remove_node: "nodes (remove_node L b) = nodes L - {b}"
  by (auto simp: nodes_def remove_node_def)

lemma remove_from_bucket_ok:
  assumes ok: "buckets_ok E s L" and sp: "spread (sentinels E \<union> nodes L)" and bn: "b \<in> nodes L"
  shows "buckets_ok E (remove_from_bucket s b) (remove_node L b)"
    and "frame (links (sentinels E \<union> nodes L - {b})) s (remove_from_bucket s b)"
proof -
  let ?O = "sentinels E \<union> nodes L"
  from bn obtain i where i: "i < 166" "b \<in> set (L i)" by (auto simp: nodes_def)
  define h where "h = bucket E i"
  note D = buckets_okD [OF ok i(1), folded h_def]
  from i(2) obtain xs ys where Li: "L i = xs @ b # ys" by (auto simp: in_set_conv_decomp)
  define pre where "pre = last (h # xs)"
  define nxt where "nxt = hd (ys @ [h])"
  define s' where "s' = stores s [(pre + 8, nxt), (nxt + 16, pre)]"
  have hS: "h \<in> sentinels E" using i(1) by (simp add: h_def)
  have sub: "set (h # L i) \<subseteq> ?O" using hS i(1) by (auto intro: nodes_memI)
  have dh: "distinct (h # xs @ b # ys)" using D(3,7) by (simp add: Li)
  have sph: "spread (set (h # xs @ b # ys))" by (rule spread_mono [OF sp]) (use sub Li in auto)
  have ch: "chain s (h # xs @ b # ys @ [h])" using D(1) by (simp add: Li)
  note R = remove_from_bucket_ring [OF ch dh sph]
  have r: "remove_from_bucket s b = s'" "chain s' (h # xs @ ys @ [h])"
    using R unfolding s'_def pre_def nxt_def by simp_all
  have pre_in: "pre \<in> set (h # xs)"
    unfolding pre_def by (rule last_in_set) simp
  have nxt_in: "nxt \<in> set (h # ys)"
  proof -
    have "hd (ys @ [h]) \<in> set (ys @ [h])" by (rule hd_in_set) simp
    then show ?thesis by (auto simp: nxt_def)
  qed
  have pn: "pre \<noteq> b" "nxt \<noteq> b" using pre_in nxt_in dh by auto
  have preO: "pre \<in> ?O - {b}" and nxtO: "nxt \<in> ?O - {b}"
    using pre_in nxt_in sub pn Li by auto
  define W where "W = {pre + 8, nxt + 16}"
  have "frame (fst ` set [(pre + 8, nxt), (nxt + 16, pre)]) s s'"
    unfolding s'_def by (rule frame_stores)
  then have frW: "frame W s s'" by (rule frame_mono) (auto simp: W_def)
  have fr: "frame (links (?O - {b})) s s'"
    by (rule frame_mono [OF frW]) (use preO nxtO in \<open>auto simp: W_def links_def\<close>)
  have hdr: "mem s' x = mem s x" if "x \<in> ?O" for x
  proof -
    have "x \<notin> links (?O - {b})" by (rule not_links(1) [OF sp that]) auto
    then show ?thesis using frame_mem [OF fr] by simp
  qed
  have sz: "size_at s' x = size_at s x" if "x \<in> ?O" for x
    using hdr [OF that] by (simp add: size_at_def)
  have lnk: "mem s' (x + 8) = mem s (x + 8) \<and> mem s' (x + 16) = mem s (x + 16)"
    if x: "x \<in> ?O" "x \<notin> set (h # L i)" for x
  proof -
    have ne: "x \<noteq> pre" "x \<noteq> nxt" using x pre_in nxt_in Li by auto
    have A: "{pre, nxt} \<subseteq> ?O" using preO nxtO by auto
    have "x + 8 \<notin> links {pre, nxt}" "x + 16 \<notin> links {pre, nxt}"
      using not_links(2,3) [OF sp x(1) A] ne by auto
    then have "x + 8 \<notin> W" "x + 16 \<notin> W" by (auto simp: W_def links_def)
    then show ?thesis using frame_mem [OF frW] by simp
  qed
  have Li': "remove_node L b i = xs @ ys" using dh by (simp add: remove_node_def Li)
  have Lj': "remove_node L b j = L j" if "j < 166" "j \<noteq> i" for j
  proof -
    have "b \<notin> set (L j)" using node_bucket_unique [OF ok that(1) i(1) _ i(2)] that(2) by auto
    then show ?thesis by (simp add: remove_node_def)
  qed
  have ring_i: "bucket_ring E s' i (xs @ ys)"
  proof -
    have 1: "chain s' (bucket E i # (xs @ ys) @ [bucket E i])" using r(2) by (simp add: h_def)
    have 2: "size_at s' (bucket E i) = 0" using sz [of h] hS D(2) by (simp add: h_def)
    have inO: "x \<in> ?O" if "x \<in> set (xs @ ys)" for x using that sub Li by auto
    have 3: "\<forall>x \<in> set (xs @ ys). 0 < size_at s' x"
    proof
      fix x assume x: "x \<in> set (xs @ ys)"
      then have "0 < size_at s x" using D(5) [of x] Li by auto
      then show "0 < size_at s' x" using sz [OF inO [OF x]] by simp
    qed
    have 4: "distinct (xs @ ys)" using D(3) by (auto simp: Li)
    have m: "map (size_at s') (xs @ ys) = map (size_at s) (xs @ ys)"
      by (rule map_cong [OF refl]) (use sz inO in blast)
    have "sorted (map (size_at s) (xs @ ys))"
      using D(4) by (auto simp: Li sorted_append)
    then have 5: "sorted (map (size_at s') (xs @ ys))" unfolding m .
    show ?thesis unfolding bucket_ring_def using 1 2 3 4 5 by blast
  qed
  have ok': "buckets_ok E s' (remove_node L b)"
    unfolding buckets_ok_def
  proof (intro allI impI conjI)
    fix j :: nat assume j: "j < 166"
    show "bucket_ring E s' j (remove_node L b j)"
    proof (cases "j = i")
      case True
      then show ?thesis using ring_i Li' by simp
    next
      case False
      have "bucket_ring E s' j (L j) = bucket_ring E s j (L j)"
      proof (rule bucket_ring_frame, rule ballI)
        fix x assume x: "x \<in> insert (bucket E j) (set (L j))"
        then have xo: "x \<in> ?O" using j by (auto intro: nodes_memI)
        have "x \<notin> set (h # L i)"
        proof (cases "x = bucket E j")
          case True
          then have "x \<noteq> h" using False by (simp add: h_def bucket_inj)
          moreover have "x \<notin> nodes L" using sentinel_not_node [OF ok, of x] True j by simp
          ultimately show ?thesis using i(1) by (auto intro: nodes_memI)
        next
          case F: False
          with x have xj: "x \<in> set (L j)" by simp
          then have "x \<notin> set (L i)" using node_bucket_unique [OF ok j i(1) xj] False by auto
          moreover have "x \<noteq> h" using sentinel_not_node [OF ok hS] xj j by (auto intro: nodes_memI)
          ultimately show ?thesis by simp
        qed
        with hdr [OF xo] lnk [OF xo]
        show "mem s' x = mem s x \<and> mem s' (x + 8) = mem s (x + 8) \<and> mem s' (x + 16) = mem s (x + 16)"
          by simp
      qed
      then show ?thesis using ok j Lj' [OF j False] by (simp add: buckets_ok_def)
    qed
  next
    fix j :: nat assume j: "j < 166"
    show "\<forall>x \<in> set (remove_node L b j). bucket_index_from_size (size_at s' x) = Some j"
    proof
      fix x assume x: "x \<in> set (remove_node L b j)"
      then have xj: "x \<in> set (L j)" by (simp add: remove_node_def)
      then have "x \<in> ?O" using j by (auto intro: nodes_memI)
      then show "bucket_index_from_size (size_at s' x) = Some j"
        using sz [of x] buckets_okD(6) [OF ok j xj] by simp
    qed
  qed
  show "buckets_ok E (remove_from_bucket s b) (remove_node L b)" using ok' r(1) by simp
  show "frame (links (sentinels E \<union> nodes L - {b})) s (remove_from_bucket s b)" using fr r(1) by simp
qed

lemma header_outside:
  assumes "registry_ok E s" "tiled s T" "x \<in> sentinels E \<union> blocks s T" "b \<in> blocks s T"
    "x \<noteq> b" "k < 24"
  shows "x + k \<notin> region s b"
proof -
  from assms(3) show ?thesis
  proof
    assume "x \<in> sentinels E"
    from block_sentinel [OF assms(1,2,4) this] assms(6) show ?thesis by (auto simp: region_def)
  next
    assume x: "x \<in> blocks s T"
    then have "32 \<le> size_at s x" using assms(1,2) block_facts(6) by (auto simp: blocks_def)
    with blocks_disjoint [OF assms(1,2) x assms(4,5)] assms(6) show ?thesis
      by (auto simp: region_def)
  qed
qed

lemma footer_in_region:
  assumes "registry_ok E s" "tiled s T" "c \<in> blocks s T"
  shows "c + size_at s c - 8 \<in> region s c" "c \<in> region s c"
proof -
  have "32 \<le> size_at s c" using assms block_facts(6) by (auto simp: blocks_def)
  then show "c + size_at s c - 8 \<in> region s c" "c \<in> region s c" by (auto simp: region_def)
qed

lemma regions_disjoint:
  assumes "registry_ok E s" "tiled s T" "b \<in> blocks s T" "c \<in> blocks s T" "b \<noteq> c"
  shows "region s b \<inter> region s c = {}"
  using blocks_disjoint [OF assms] by (auto simp: region_def)

text \<open>
  A step that writes link cells of objects in \<open>A\<close> and cells inside the blocks of \<open>X\<close> leaves
  the header word and the footer of every other block, and the header word of every
  sentinel, as they are.
\<close>

lemma frame_block:
  assumes r: "registry_ok E s" and t: "tiled s T"
    and fr: "frame (links A \<union> R) s s'" and A: "A \<subseteq> sentinels E \<union> blocks s T"
    and R: "R \<subseteq> (\<Union>b \<in> X. region s b)" and X: "X \<subseteq> blocks s T"
    and c: "c \<in> blocks s T" "c \<notin> X"
  shows "mem s' c = mem s c" "mem s' (c + size_at s c - 8) = mem s (c + size_at s c - 8)"
    "size_at s' c = size_at s c" "mapping_at s' c = mapping_at s c" "free_at s' c = free_at s c"
proof -
  have co: "c \<in> sentinels E \<union> blocks s T" using c by simp
  have nR: "a \<notin> R" if "a \<in> region s c" for a
  proof
    assume "a \<in> R"
    with R obtain b where b: "b \<in> X" "a \<in> region s b" by auto
    with c X have "b \<in> blocks s T" "b \<noteq> c" by auto
    from regions_disjoint [OF r t this(1) c(1) this(2)] b(2) that show False by auto
  qed
  have "c \<notin> links A" by (rule not_links(1) [OF objects_spread [OF r t] co A])
  moreover have "c \<notin> R" by (rule nR [OF footer_in_region(2) [OF r t c(1)]])
  ultimately show 1: "mem s' c = mem s c" using frame_mem [OF fr] by simp
  have "c + size_at s c - 8 \<notin> links A"
  proof
    assume "c + size_at s c - 8 \<in> links A"
    then obtain x where x: "x \<in> A" "c + size_at s c - 8 = x + 8 \<or> c + size_at s c - 8 = x + 16"
      by (auto simp: links_def)
    with A have xo: "x \<in> sentinels E \<union> blocks s T" by auto
    from header_not_footer [OF r t xo c(1), of 8] header_not_footer [OF r t xo c(1), of 16] x(2)
    show False by auto
  qed
  moreover have "c + size_at s c - 8 \<notin> R" by (rule nR [OF footer_in_region(1) [OF r t c(1)]])
  ultimately show "mem s' (c + size_at s c - 8) = mem s (c + size_at s c - 8)"
    using frame_mem [OF fr] by simp
  show "size_at s' c = size_at s c" "mapping_at s' c = mapping_at s c" "free_at s' c = free_at s c"
    using 1 by (simp_all add: size_at_def mapping_at_def free_at_def)
qed


lemma update_size_eq:
  assumes "b + sz < 2 ^ 64" "16 \<le> sz"
  shows "update_size s b sz = stores s [(b + sz - 8, sz), (b, with_size (mem s b) sz)]"
proof -
  have "sub64 (add64 b sz) sizeof_footer_t = b + sz - 8"
    using assms by (simp add: add64_nowrap sub64_nowrap sizeof_footer_t_def)
  then show ?thesis using assms(2) by (simp add: update_size_def set_size_def Let_def)
qed

lemma update_size_facts:
  assumes "b + sz < 2 ^ 64" "16 \<le> sz" "sz < 2 ^ 48"
  shows "frame {b, b + sz - 8} s (update_size s b sz)"
    "size_at (update_size s b sz) b = sz" "mem (update_size s b sz) (b + sz - 8) = sz"
    "mapping_at (update_size s b sz) b = mapping_at s b"
    "free_at (update_size s b sz) b = free_at s b"
proof -
  note e = update_size_eq [OF assms(1,2)]
  have "frame (fst ` set [(b + sz - 8, sz), (b, with_size (mem s b) sz)]) s (update_size s b sz)"
    unfolding e by (rule frame_stores)
  then show "frame {b, b + sz - 8} s (update_size s b sz)" by (rule frame_mono) auto
  show "size_at (update_size s b sz) b = sz" using assms(3) by (simp add: e size_at_def)
  have "b + sz - 8 \<noteq> b" using assms(2) by simp
  then show "mem (update_size s b sz) (b + sz - 8) = sz" by (simp add: e)
  show "mapping_at (update_size s b sz) b = mapping_at s b" by (simp add: e mapping_at_def)
  show "free_at (update_size s b sz) b = free_at s b" by (simp add: e free_at_def)
qed

lemma heap_inv_butD:
  assumes "heap_inv_but X E s L T"
  shows "initialized s" "registry_ok E s" "tiled s T" "buckets_ok E s L"
    "nodes L \<subseteq> blocks s T - X" "b \<in> blocks s T \<Longrightarrow> b \<notin> X \<Longrightarrow> free_at s b \<longleftrightarrow> b \<in> nodes L"
  using assms by (auto simp: heap_inv_but_def)

lemma heap_inv_butI:
  assumes "initialized s" "registry_ok E s" "tiled s T" "buckets_ok E s L"
    "nodes L \<subseteq> blocks s T - X" "\<And>b. b \<in> blocks s T \<Longrightarrow> b \<notin> X \<Longrightarrow> free_at s b \<longleftrightarrow> b \<in> nodes L"
  shows "heap_inv_but X E s L T"
  using assms by (auto simp: heap_inv_but_def)

lemma heap_inv_weaken:
  assumes "heap_inv E s L T" "b \<in> blocks s T" "\<not> free_at s b"
  shows "heap_inv_but {b} E s L T"
proof -
  note D = heap_inv_butD [OF assms(1) [unfolded heap_inv_def]]
  have "b \<notin> nodes L" using D(6) [OF assms(2)] assms(3) by simp
  with D show ?thesis by (intro heap_inv_butI) auto
qed

lemma block_size_ge:
  assumes "registry_ok E s" "tiled s T" "b \<in> blocks s T"
  shows "32 \<le> size_at s b" "0 < b" "b + size_at s b \<le> 2 ^ 48" "mapping_at s b < mapping_index s"
    "b \<in> set (T (mapping_at s b))"
    "fst (mappings s (mapping_at s b)) \<le> b" "b + size_at s b \<le> snd (mappings s (mapping_at s b))"
proof -
  from assms(3) obtain m where m: "m < mapping_index s" "b \<in> set (T m)" by (auto simp: blocks_def)
  note F = block_facts [OF assms(1,2) m]
  from F(1) have mm: "mapping_at s b = m" by (simp add: block_ok_def)
  from F show "32 \<le> size_at s b" "0 < b" "b + size_at s b \<le> 2 ^ 48" by auto
  from m mm show "mapping_at s b < mapping_index s" "b \<in> set (T (mapping_at s b))" by auto
  from F mm show "fst (mappings s (mapping_at s b)) \<le> b"
    "b + size_at s b \<le> snd (mappings s (mapping_at s b))" by auto
qed

lemma insert_into_buckets_inv:
  assumes inv: "heap_inv_but {b} E s L T" and bT: "b \<in> blocks s T"
  shows "\<exists>s' i. i < 166 \<and> bucket_index_from_size (size_at s b) = Some i \<and>
           insert_into_buckets E s b = Some s' \<and> heap_inv E s' (insert_node s L i b) T \<and>
           same_globals s s' \<and> mem s' b = with_free (mem s b) True"
proof -
  note D = heap_inv_butD [OF inv]
  note r = D(2) and t = D(3)
  let ?O = "sentinels E \<union> nodes L"
  have sub: "insert b ?O \<subseteq> sentinels E \<union> blocks s T" using D(5) bT by auto
  have sp: "spread (insert b ?O)" by (rule spread_mono [OF objects_spread [OF r t] sub])
  have nb: "b \<notin> ?O" using D(5) sentinel_not_block [OF r t bT] by auto
  note B = block_size_ge [OF r t bT]
  have pos: "0 < size_at s b" using B(1) by simp
  from insert_into_buckets_ok [OF D(4) sp nb pos] obtain s' i where
    i: "i < 166" "bucket_index_from_size (size_at s b) = Some i"
    and ins: "insert_into_buckets E s b = Some s'"
    and ok': "buckets_ok E s' (insert_node s L i b)"
    and fr0: "frame (insert b (links (insert b ?O))) s s'"
    and memb: "mem s' b = with_free (mem s b) True" by blast
  have fr: "frame (links (insert b ?O) \<union> {b}) s s'" by (rule frame_mono [OF fr0]) auto
  have Rb: "{b} \<subseteq> (\<Union>x \<in> {b}. region s x)" using footer_in_region(2) [OF r t bT] by simp
  have Xb: "{b} \<subseteq> blocks s T" using bT by simp
  note FB = frame_block [OF r t fr sub Rb Xb]
  have g: "same_globals s s'" by (rule frame_globals [OF fr0])
  have bl: "blocks s' T = blocks s T" by (rule blocks_same [OF g])
  have ft: "mem s' (b + size_at s b - 8) = mem s (b + size_at s b - 8)"
  proof -
    have "b + size_at s b - 8 \<notin> links (insert b ?O)"
    proof
      assume "b + size_at s b - 8 \<in> links (insert b ?O)"
      then obtain x where x: "x \<in> insert b ?O"
        "b + size_at s b - 8 = x + 8 \<or> b + size_at s b - 8 = x + 16" by (auto simp: links_def)
      with sub have xo: "x \<in> sentinels E \<union> blocks s T" by auto
      from header_not_footer [OF r t xo bT, of 8] header_not_footer [OF r t xo bT, of 16] x(2)
      show False by auto
    qed
    moreover have "b + size_at s b - 8 \<noteq> b" using B(1) by simp
    ultimately show ?thesis using frame_mem [OF fr0] by simp
  qed
  have "tiled s' T = tiled s T"
  proof (rule tiled_frame [OF g], rule ballI)
    fix c assume c: "c \<in> blocks s T"
    show "size_at s' c = size_at s c \<and> mapping_at s' c = mapping_at s c \<and>
          mem s' (c + size_at s c - 8) = mem s (c + size_at s c - 8)"
    proof (cases "c = b")
      case True
      then show ?thesis using memb ft by (simp add: size_at_def mapping_at_def)
    next
      case False
      then show ?thesis using FB(2,3,4) [OF c] by simp
    qed
  qed
  then have t': "tiled s' T" using t by simp
  have nd: "nodes (insert_node s L i b) = insert b (nodes L)" by (rule nodes_insert_node [OF i(1)])
  have "heap_inv_but {} E s' (insert_node s L i b) T"
  proof (rule heap_inv_butI)
    show "initialized s'" using D(1) g by (simp add: same_globals_def)
    show "registry_ok E s'" using r registry_ok_same [OF g] by simp
    show "tiled s' T" by (rule t')
    show "buckets_ok E s' (insert_node s L i b)" by (rule ok')
    show "nodes (insert_node s L i b) \<subseteq> blocks s' T - {}" using D(5) bT by (auto simp: nd bl)
  next
    fix c assume c: "c \<in> blocks s' T" "c \<notin> {}"
    show "free_at s' c \<longleftrightarrow> c \<in> nodes (insert_node s L i b)"
    proof (cases "c = b")
      case True
      then show ?thesis using memb by (simp add: nd free_at_def)
    next
      case False
      have cb: "c \<in> blocks s T" using c(1) bl by simp
      from FB(5) [OF cb] False D(6) [OF cb] show ?thesis by (simp add: nd)
    qed
  qed
  then have "heap_inv E s' (insert_node s L i b) T" by (simp add: heap_inv_def)
  with i ins g memb show ?thesis by blast
qed

lemma object_apart:
  assumes "registry_ok E s" "tiled s T" "x \<in> sentinels E \<union> blocks s T" "b \<in> blocks s T" "x \<noteq> b"
  shows "x + 24 \<le> b \<or> b + size_at s b \<le> x"
proof -
  from assms(3) show ?thesis
  proof
    assume "x \<in> sentinels E"
    from block_sentinel [OF assms(1,2,4) this] show ?thesis by auto
  next
    assume x: "x \<in> blocks s T"
    then have "32 \<le> size_at s x" using assms(1,2) block_facts(6) by (auto simp: blocks_def)
    with blocks_disjoint [OF assms(1,2) x assms(4,5)] show ?thesis by auto
  qed
qed

lemma frame_set_mapping: "frame {b} s (set_mapping s b v)"
  by (simp add: frame_def set_mapping_def same_globals_def)

lemma blocks_upd:
  assumes "m < mapping_index s" "mapping_index s' = mapping_index s"
  shows "blocks s' (T(m := bs)) = (\<Union>m' \<in> {..<mapping_index s} - {m}. set (T m')) \<union> set bs"
proof (intro set_eqI iffI)
  fix x assume "x \<in> blocks s' (T(m := bs))"
  then obtain m' where m': "m' < mapping_index s" "x \<in> set ((T(m := bs)) m')"
    using assms(2) by (auto simp: blocks_def)
  then show "x \<in> (\<Union>m' \<in> {..<mapping_index s} - {m}. set (T m')) \<union> set bs"
    by (cases "m' = m") auto
next
  fix x assume "x \<in> (\<Union>m' \<in> {..<mapping_index s} - {m}. set (T m')) \<union> set bs"
  then consider m' where "m' < mapping_index s" "m' \<noteq> m" "x \<in> set (T m')" | "x \<in> set bs" by auto
  then show "x \<in> blocks s' (T(m := bs))"
  proof cases
    case 1
    then have "x \<in> set ((T(m := bs)) m')" by simp
    with 1(1) show ?thesis unfolding blocks_def assms(2) by blast
  next
    case 2
    then have "x \<in> set ((T(m := bs)) m)" by simp
    with assms(1) show ?thesis unfolding blocks_def assms(2) by blast
  qed
qed

lemma blocks_grow:
  assumes "m < mapping_index s" "mapping_index s' = mapping_index s" "set (T m) \<subseteq> set bs"
  shows "blocks s' (T(m := bs)) = blocks s T \<union> set bs"
proof -
  have "blocks s T = (\<Union>m' \<in> {..<mapping_index s} - {m}. set (T m')) \<union> set (T m)"
    using blocks_upd [OF assms(1) refl, of T "T m"] by simp
  then show ?thesis unfolding blocks_upd [OF assms(1,2)] using assms(3) by auto
qed

lemma split_block:
  assumes inv: "heap_inv_but {b} E s L T" and bT: "b \<in> blocks s T"
    and sz: "32 \<le> sz" "sz + 32 \<le> size_at s b"
  shows "\<exists>s' L' T'. split_after E s b sz = Some s' \<and>
           heap_inv_but {b} E (update_size s' b sz) L' T' \<and>
           same_globals s (update_size s' b sz) \<and>
           blocks (update_size s' b sz) T' = insert (b + sz) (blocks s T) \<and>
           (\<forall>c \<in> blocks s T. free_at (update_size s' b sz) c = free_at s c) \<and>
           size_at (update_size s' b sz) b = sz \<and> nodes L' = insert (b + sz) (nodes L)"
proof -
  note D = heap_inv_butD [OF inv]
  note r = D(2) and t = D(3)
  note B = block_size_ge [OF r t bT]
  define S where "S = size_at s b"
  define m where "m = mapping_at s b"
  define nb where "nb = b + sz"
  let ?O = "sentinels E \<union> nodes L"
  have SS: "sz + 32 \<le> S" "b + S \<le> 2 ^ 48" "32 \<le> S" "32 \<le> sz" using sz B by (simp_all add: S_def)
  have m: "m < mapping_index s" "b \<in> set (T m)" using B by (simp_all add: m_def)
  have mi: "mapping_index s \<le> 2 ^ 15" using r by (simp add: registry_ok_def)
  have Osub: "?O \<subseteq> sentinels E \<union> blocks s T" using D(5) by auto
  have bO: "b \<notin> ?O" using D(5) sentinel_not_block [OF r t bT] by auto
  have apart: "x + 24 \<le> b \<or> b + S \<le> x" if "x \<in> sentinels E \<union> blocks s T" "x \<noteq> b" for x
    using object_apart [OF r t that(1) bT that(2)] by (simp add: S_def)
  have apartO: "x + 24 \<le> b \<or> b + S \<le> x" if "x \<in> ?O" for x
    using apart [of x] that Osub bO by auto
  txt \<open>the tail gets its size and footer\<close>
  define s1 where "s1 = update_size s nb (S - sz)"
  have e1: "nb + (S - sz) - 8 = b + S - 8" "nb + (S - sz) = b + S" using SS by (simp_all add: nb_def)
  have "nb + (S - sz) < 2 ^ 64" "16 \<le> S - sz" "S - sz < 2 ^ 48" using SS B(2) e1 by simp_all
  note U1 = update_size_facts [OF this, of s, folded s1_def, unfolded e1]
  define s2 where "s2 = set_mapping s1 nb (mapping_at s1 b)"
  have b1: "mem s1 b = mem s b" using frame_mem [OF U1(1), of b] SS sz by (simp add: nb_def)
  have m1: "mapping_at s1 b = m" using b1 by (simp add: mapping_at_def m_def)
  have mem2: "mem s2 nb = with_mapping (mem s1 nb) m" by (simp add: s2_def set_mapping_def m1)
  have z2: "size_at s2 nb = S - sz" using mem2 U1(2) by (simp add: size_at_def)
  have mp2: "mapping_at s2 nb = m" using mem2 m(1) mi by (simp add: mapping_at_def)
  have "frame ({nb, b + S - 8} \<union> {nb}) s s2"
    unfolding s2_def by (rule frame_trans [OF U1(1) frame_set_mapping])
  then have fr2: "frame {nb, b + S - 8} s s2" by (rule frame_mono) auto
  have ft2: "mem s2 (b + S - 8) = S - sz"
  proof -
    have "b + S - 8 \<noteq> nb" using SS by (simp add: nb_def)
    then have "mem s2 (b + S - 8) = mem s1 (b + S - 8)" by (simp add: s2_def set_mapping_def)
    then show ?thesis using U1(3) by simp
  qed
  have cells2: "mem s2 (x + k) = mem s (x + k)" if "x \<in> ?O" "k < 24" for x k
  proof -
    have "x + k \<noteq> nb" "x + k \<noteq> b + S - 8" using apartO [OF that(1)] that(2) SS by (auto simp: nb_def)
    then show ?thesis using frame_mem [OF fr2, of "x + k"] by simp
  qed
  have ok2: "buckets_ok E s2 L"
  proof -
    have "buckets_ok E s2 L = buckets_ok E s L"
      by (rule buckets_ok_frame) (use cells2 [of _ 0] cells2 [of _ 8] cells2 [of _ 16] in auto)
    then show ?thesis using D(4) by simp
  qed
  txt \<open>the tail goes into its bucket\<close>
  have sp: "spread (insert nb ?O)"
    unfolding spread_def
  proof (intro ballI)
    fix x y assume x: "x \<in> insert nb ?O" and y: "y \<in> insert nb ?O"
    have o: "spread ?O" by (rule spread_mono [OF objects_spread [OF r t] Osub])
    have f: "far nb z" if "z \<in> ?O" for z using apartO [OF that] SS by (auto simp: far_def nb_def)
    consider "x = nb" "y = nb" | "x = nb" "y \<in> ?O" | "x \<in> ?O" "y = nb" | "x \<in> ?O" "y \<in> ?O"
      using x y by auto
    then show "x = y \<or> far x y"
    proof cases
      case 1 then show ?thesis by simp
    next
      case 2 then show ?thesis using f by simp
    next
      case 3 then show ?thesis using f far_sym by simp
    next
      case 4 then show ?thesis using spreadD [OF o] by simp
    qed
  qed
  have nbO: "nb \<notin> ?O" using apartO [of nb] SS by (auto simp: nb_def)
  have pos2: "0 < size_at s2 nb" using z2 SS by simp
  from insert_into_buckets_ok [OF ok2 sp nbO pos2] obtain s3 i where
    i: "i < 166" and ins: "insert_into_buckets E s2 nb = Some s3"
    and ok3: "buckets_ok E s3 (insert_node s2 L i nb)"
    and fr3: "frame (insert nb (links (insert nb ?O))) s2 s3"
    and mem3: "mem s3 nb = with_free (mem s2 nb) True" by blast
  define L' where "L' = insert_node s2 L i nb"
  have nd: "nodes L' = insert nb (nodes L)" unfolding L'_def by (rule nodes_insert_node [OF i])
  txt \<open>the head is cut down\<close>
  define s4 where "s4 = update_size s3 b sz"
  have "b + sz < 2 ^ 64" "16 \<le> sz" "sz < 2 ^ 48" using SS sz by simp_all
  note U4 = update_size_facts [OF this, of s3, folded s4_def]
  define R where "R = {nb, nb + 8, nb + 16, b + S - 8, b, b + sz - 8}"
  have "frame (({nb, b + S - 8} \<union> insert nb (links (insert nb ?O))) \<union> {b, b + sz - 8}) s s4"
    by (rule frame_trans [OF frame_trans [OF fr2 fr3] U4(1)])
  then have fr: "frame (links ?O \<union> R) s s4" by (rule frame_mono) (auto simp: R_def links_def)
  have RR: "R \<subseteq> (\<Union>x \<in> {b}. region s x)" using SS sz by (auto simp: R_def region_def nb_def S_def)
  have Xb: "{b} \<subseteq> blocks s T" using bT by simp
  note FB = frame_block [OF r t fr Osub RR Xb]
  have g: "same_globals s s4" by (rule frame_globals [OF fr])
  have split: "split_after E s b sz = Some s3"
  proof -
    have "add64 b sz = nb" using SS by (simp add: add64_nowrap nb_def)
    moreover have "sub64 (size_at s b) sz = S - sz" using SS by (simp add: sub64_nowrap S_def)
    ultimately show ?thesis using ins by (simp add: split_after_def Let_def s1_def s2_def)
  qed
  txt \<open>the blocks of the mapping\<close>
  from tiles_split [of s m "fst (mappings s m)" "T m" "snd (mappings s m)" b] t m
  obtain pre post where Tm: "T m = pre @ b # post"
    and tp: "tiles s m (fst (mappings s m)) pre b" and tq: "tiles s m (b + S) post (snd (mappings s m))"
    by (auto simp: tiled_def S_def)
  define T' where "T' = T(m := pre @ b # nb # post)"
  have nbT: "nb \<notin> blocks s T"
  proof
    assume "nb \<in> blocks s T"
    moreover have "nb \<noteq> b" using sz by (simp add: nb_def)
    ultimately show False using apart [of nb] SS by (auto simp: nb_def)
  qed
  have "mapping_index s4 = mapping_index s" using g by (simp add: same_globals_def)
  then have "blocks s4 T' = blocks s T \<union> set (pre @ b # nb # post)"
    unfolding T'_def by (rule blocks_grow [OF m(1)]) (auto simp: Tm)
  moreover have "set (pre @ b # post) \<subseteq> blocks s T" using m by (auto simp: blocks_def Tm [symmetric])
  ultimately have bl: "blocks s4 T' = insert nb (blocks s T)" by auto
  have mem4nb: "mem s4 nb = with_free (with_mapping (mem s1 nb) m) True"
  proof -
    have "nb \<noteq> b" "nb \<noteq> b + sz - 8" using sz by (simp_all add: nb_def)
    then have "mem s4 nb = mem s3 nb" using frame_mem [OF U4(1), of nb] by simp
    then show ?thesis using mem3 mem2 by simp
  qed
  have mem3x: "mem s3 a = mem s2 a" if "a \<in> region s b" "a \<noteq> nb" "a \<noteq> nb + 8" "a \<noteq> nb + 16" for a
  proof -
    have "a \<notin> links ?O"
    proof
      assume "a \<in> links ?O"
      then obtain x where "x \<in> ?O" "a = x + 8 \<or> a = x + 16" by (auto simp: links_def)
      with apartO [of x] that(1) show False by (auto simp: region_def S_def)
    qed
    then show ?thesis using frame_mem [OF fr3, of a] that by (auto simp: links_def)
  qed
  have okb: "block_ok s4 m b"
  proof -
    have "b \<in> region s b" using SS by (simp add: region_def S_def)
    then have "mem s3 b = mem s2 b" using mem3x [of b] sz by (simp add: nb_def)
    moreover have "mem s2 b = mem s b" using frame_mem [OF fr2, of b] SS sz by (simp add: nb_def)
    ultimately have "mapping_at s3 b = m" by (simp add: mapping_at_def m_def)
    then show ?thesis using U4(2,3,4) sz by (simp add: block_ok_def)
  qed
  have oknb: "block_ok s4 m nb"
  proof -
    have a: "size_at s4 nb = S - sz" using mem4nb U1(2) by (simp add: size_at_def)
    have b: "mapping_at s4 nb = m" using mem4nb m(1) mi by (simp add: mapping_at_def)
    have "b + S - 8 \<in> region s b" using SS by (simp add: region_def S_def)
    then have "mem s3 (b + S - 8) = mem s2 (b + S - 8)" using mem3x [of "b + S - 8"] SS by (simp add: nb_def)
    moreover have "b + S - 8 \<noteq> b" "b + S - 8 \<noteq> b + sz - 8" using SS by simp_all
    then have "mem s4 (b + S - 8) = mem s3 (b + S - 8)"
      using frame_mem [OF U4(1), of "b + S - 8"] by simp
    ultimately have "mem s4 (nb + size_at s4 nb - 8) = S - sz" using ft2 a e1 by simp
    then show ?thesis using a b SS by (simp add: block_ok_def)
  qed
  have t': "tiled s4 T'"
    unfolding tiled_def
  proof (intro allI impI)
    fix m' assume "m' < mapping_index s4"
    then have m': "m' < mapping_index s" using g by (simp add: same_globals_def)
    have mp: "mappings s4 = mappings s" using g by (simp add: same_globals_def)
    have other: "tiles s4 k lo bs hi = tiles s k lo bs hi" if "set bs \<subseteq> blocks s T - {b}" for k lo bs hi
      by (rule tiles_frame') (use that FB(2,3,4) in auto)
    show "tiles s4 m' (fst (mappings s4 m')) (T' m') (snd (mappings s4 m'))"
    proof (cases "m' = m")
      case False
      have "set (T m') \<subseteq> blocks s T - {b}"
        using block_mapping_unique [OF r t m' _ m] False m' by (auto simp: blocks_def)
      from other [OF this] t m' False show ?thesis by (simp add: T'_def mp tiled_def)
    next
      case True
      have "tiles s m (fst (mappings s m)) (T m) (snd (mappings s m))"
        using t m(1) by (simp add: tiled_def)
      from tiles_distinct [OF this] have d: "distinct (pre @ b # post)" by (simp add: Tm)
      have "set pre \<subseteq> blocks s T - {b}" "set post \<subseteq> blocks s T - {b}"
        using d m(1) Tm by (auto simp: blocks_def)
      from other [OF this(1)] other [OF this(2)] tp tq
      have "tiles s4 m (fst (mappings s m)) pre b" "tiles s4 m (b + S) post (snd (mappings s m))"
        by simp_all
      moreover have "size_at s4 b = sz" "size_at s4 nb = S - sz" "nb + (S - sz) = b + S"
        using U4(2) mem4nb U1(2) e1 by (simp_all add: size_at_def)
      ultimately show ?thesis using okb oknb True
        by (simp add: T'_def mp tiles_append nb_def)
    qed
  qed
  have ok4: "buckets_ok E s4 L'"
  proof -
    have "buckets_ok E s4 L' = buckets_ok E s3 L'"
    proof (rule buckets_ok_frame, rule ballI)
      fix x assume "x \<in> sentinels E \<union> nodes L'"
      then have x: "x = nb \<or> x \<in> ?O" by (auto simp: nd)
      have "x + k \<noteq> b \<and> x + k \<noteq> b + sz - 8" if "k < 24" for k
        using x apartO [of x] SS sz that by (auto simp: nb_def)
      from this [of 0] this [of 8] this [of 16] frame_mem [OF U4(1)]
      show "mem s4 x = mem s3 x \<and> mem s4 (x + 8) = mem s3 (x + 8) \<and> mem s4 (x + 16) = mem s3 (x + 16)"
        by simp
    qed
    then show ?thesis using ok3 by (simp add: L'_def)
  qed
  have fl4: "free_at s4 c = free_at s c" if "c \<in> blocks s T" for c
  proof (cases "c = b")
    case True
    have "b \<in> region s b" using SS by (simp add: region_def S_def)
    then have "mem s3 b = mem s2 b" using mem3x [of b] sz by (simp add: nb_def)
    moreover have "mem s2 b = mem s b" using frame_mem [OF fr2, of b] SS sz by (simp add: nb_def)
    ultimately show ?thesis using U4(5) True by (simp add: free_at_def)
  next
    case False
    then show ?thesis using FB(5) [OF that] by simp
  qed
  have inv4: "heap_inv_but {b} E s4 L' T'"
  proof (rule heap_inv_butI)
    show "initialized s4" using D(1) g by (simp add: same_globals_def)
    show "registry_ok E s4" using r registry_ok_same [OF g] by simp
    show "tiled s4 T'" by (rule t')
    show "buckets_ok E s4 L'" by (rule ok4)
    show "nodes L' \<subseteq> blocks s4 T' - {b}" using D(5) sz by (auto simp: nd bl nb_def)
  next
    fix c assume c: "c \<in> blocks s4 T'" "c \<notin> {b}"
    show "free_at s4 c \<longleftrightarrow> c \<in> nodes L'"
    proof (cases "c = nb")
      case True
      then show ?thesis using mem4nb by (simp add: nd free_at_def)
    next
      case False
      with c have cb: "c \<in> blocks s T" "c \<notin> {b}" by (auto simp: bl)
      from fl4 [OF cb(1)] D(6) [OF cb] False show ?thesis by (simp add: nd)
    qed
  qed
  show ?thesis
    using split inv4 g bl fl4 U4(2) nd unfolding s4_def nb_def by blast
qed

lemma adjusted_block_inv:
  assumes inv: "heap_inv_but {b} E s L T" and bT: "b \<in> blocks s T"
    and sz: "32 \<le> sz" "sz + 32 < 2 ^ 64"
  shows "\<exists>s' L' T'. adjusted_block E s b sz = Some (s', b) \<and> heap_inv_but {b} E s' L' T' \<and>
           same_globals s s' \<and> blocks s T \<subseteq> blocks s' T' \<and>
           (\<forall>c \<in> blocks s T. free_at s' c = free_at s c) \<and>
           (sz \<le> size_at s b \<longrightarrow> sz \<le> size_at s' b) \<and> nodes L \<subseteq> nodes L'"
proof (cases "size_at s b < sz + 32")
  case True
  then have "adjusted_block E s b sz = Some (s, b)"
    using sz by (simp add: adjusted_block_def add64_nowrap MIN_ALLOC_def sizeof_header_t_def sizeof_footer_t_def)
  with inv show ?thesis by (intro exI [of _ s] exI [of _ L] exI [of _ T]) simp
next
  case False
  then have big: "sz + 32 \<le> size_at s b" by simp
  from split_block [OF inv bT sz(1) big] obtain s1 L' T' where
    sp: "split_after E s b sz = Some s1"
    and inv': "heap_inv_but {b} E (update_size s1 b sz) L' T'"
    and g: "same_globals s (update_size s1 b sz)"
    and bl: "blocks (update_size s1 b sz) T' = insert (b + sz) (blocks s T)"
    and fl: "\<forall>c \<in> blocks s T. free_at (update_size s1 b sz) c = free_at s c"
    and size: "size_at (update_size s1 b sz) b = sz"
    and nd: "nodes L' = insert (b + sz) (nodes L)" by blast
  have "adjusted_block E s b sz = Some (update_size s1 b sz, b)"
    using False sz sp
    by (simp add: adjusted_block_def add64_nowrap MIN_ALLOC_def sizeof_header_t_def sizeof_footer_t_def)
  with inv' g bl fl size nd show ?thesis
    by (intro exI [of _ "update_size s1 b sz"] exI [of _ L'] exI [of _ T']) auto
qed

lemma coalesce_inv:
  assumes inv: "heap_inv E s L T" and lo: "lower \<in> nodes L" and hi: "higher \<in> nodes L"
    and adj: "higher = lower + size_at s lower"
    and same: "higher < snd (mappings s (mapping_at s lower))"
  shows "\<exists>s' L' T'. coalesce E s lower higher = Some s' \<and> heap_inv E s' L' T' \<and>
           same_globals s s' \<and> blocks s' T' = blocks s T - {higher} \<and>
           (\<forall>c \<in> blocks s T - {lower, higher}. free_at s' c = free_at s c) \<and>
           lower \<in> nodes L' \<and> mapping_at s' lower = mapping_at s lower \<and>
           size_at s' lower = size_at s lower + size_at s higher"
proof -
  note D = heap_inv_butD [OF inv [unfolded heap_inv_def]]
  note r = D(2) and t = D(3)
  have loT: "lower \<in> blocks s T" and hiT: "higher \<in> blocks s T" using D(5) lo hi by auto
  note Bl = block_size_ge [OF r t loT] and Bh = block_size_ge [OF r t hiT]
  define S1 where "S1 = size_at s lower"
  define S2 where "S2 = size_at s higher"
  define m where "m = mapping_at s lower"
  have m: "m < mapping_index s" "lower \<in> set (T m)" using Bl by (simp_all add: m_def)
  have SS: "32 \<le> S1" "32 \<le> S2" "higher = lower + S1" "higher + S2 \<le> 2 ^ 48" "0 < lower"
    using Bl Bh adj by (simp_all add: S1_def S2_def)
  have ne: "lower \<noteq> higher" using SS by simp
  let ?O = "sentinels E \<union> nodes L"
  have Osub: "?O \<subseteq> sentinels E \<union> blocks s T" using D(5) by auto
  have sp: "spread ?O" by (rule spread_mono [OF objects_spread [OF r t] Osub])
  txt \<open>the tiling around the two blocks\<close>
  have tm: "tiles s m (fst (mappings s m)) (T m) (snd (mappings s m))"
    using t m(1) by (simp add: tiled_def)
  from tiles_split [OF tm m(2)] obtain pre post0 where Tm0: "T m = pre @ lower # post0"
    and tp: "tiles s m (fst (mappings s m)) pre lower"
    and tq0: "tiles s m (lower + S1) post0 (snd (mappings s m))"
    by (auto simp: S1_def)
  from tq0 same SS have "post0 \<noteq> []" by (auto simp: m_def)
  then obtain x post where post0: "post0 = x # post" by (cases post0) auto
  with tq0 SS have x: "x = higher" and okh: "block_ok s m higher"
    and tq: "tiles s m (higher + S2) post (snd (mappings s m))"
    by (auto simp: S2_def)
  have Tm: "T m = pre @ lower # higher # post" using Tm0 post0 x by simp
  have dist: "distinct (pre @ lower # higher # post)" using tiles_distinct [OF tm] by (simp add: Tm)
  txt \<open>both blocks leave their buckets\<close>
  define s1 where "s1 = remove_from_bucket s lower"
  define L1 where "L1 = remove_node L lower"
  note R1 = remove_from_bucket_ok [OF D(4) sp lo, folded s1_def L1_def]
  have n1: "nodes L1 = nodes L - {lower}" by (simp add: L1_def nodes_remove_node)
  have sp1: "spread (sentinels E \<union> nodes L1)" by (rule spread_mono [OF sp]) (auto simp: n1)
  have hi1: "higher \<in> nodes L1" using hi ne by (simp add: n1)
  define s2 where "s2 = remove_from_bucket s1 higher"
  define L2 where "L2 = remove_node L1 higher"
  note R2 = remove_from_bucket_ok [OF R1(1) sp1 hi1, folded s2_def L2_def]
  have n2: "nodes L2 = nodes L - {lower, higher}" by (auto simp: L2_def nodes_remove_node n1)
  have "frame (links (?O - {lower}) \<union> links (sentinels E \<union> nodes L1 - {higher})) s s2"
    by (rule frame_trans [OF R1(2) R2(2)])
  then have fr2: "frame (links ?O) s s2" by (rule frame_mono) (auto simp: links_def n1)
  have hd2: "mem s2 c = mem s c" if "c \<in> sentinels E \<union> blocks s T" for c
  proof -
    have "c \<notin> links ?O" by (rule not_links(1) [OF objects_spread [OF r t] that Osub])
    then show ?thesis using frame_mem [OF fr2] by simp
  qed
  have z2: "size_at s2 lower = S1" "size_at s2 higher = S2"
    using hd2 [of lower] hd2 [of higher] loT hiT by (simp_all add: size_at_def S1_def S2_def)
  txt \<open>the lower block takes over the higher one\<close>
  define s3 where "s3 = update_size s2 lower (S1 + S2)"
  have e3: "lower + (S1 + S2) - 8 = higher + S2 - 8" using SS by simp
  have "lower + (S1 + S2) < 2 ^ 64" "16 \<le> S1 + S2" "S1 + S2 < 2 ^ 48" using SS by simp_all
  note U3 = update_size_facts [OF this, of s2, folded s3_def, unfolded e3]
  have apart: "x + k \<noteq> lower \<and> x + k \<noteq> higher + S2 - 8"
    if "x \<in> sentinels E \<union> blocks s T" "x \<noteq> lower" "x \<noteq> higher" "k < 24" for x k
    using header_outside [OF r t that(1) loT that(2,4)] header_outside [OF r t that(1) hiT that(3,4)] SS
    by (auto simp: region_def S1_def S2_def)
  let ?O2 = "sentinels E \<union> nodes L2"
  have O2: "x \<in> sentinels E \<union> blocks s T \<and> x \<noteq> lower \<and> x \<noteq> higher" if "x \<in> ?O2" for x
    using that Osub sentinel_not_block [OF r t loT] sentinel_not_block [OF r t hiT] by (auto simp: n2)
  have ok3: "buckets_ok E s3 L2"
  proof -
    have "buckets_ok E s3 L2 = buckets_ok E s2 L2"
    proof (rule buckets_ok_frame, rule ballI)
      fix x assume "x \<in> ?O2"
      note x = O2 [OF this]
      from apart [of x 0] apart [of x 8] apart [of x 16] x frame_mem [OF U3(1)]
      show "mem s3 x = mem s2 x \<and> mem s3 (x + 8) = mem s2 (x + 8) \<and> mem s3 (x + 16) = mem s2 (x + 16)"
        by simp
    qed
    then show ?thesis using R2(1) by simp
  qed
  have sp3: "spread (insert lower ?O2)"
    by (rule spread_mono [OF sp]) (use lo in \<open>auto simp: n2\<close>)
  have lO2: "lower \<notin> ?O2" using sentinel_not_block [OF r t loT] by (auto simp: n2)
  have pos3: "0 < size_at s3 lower" using U3(2) SS by simp
  from insert_into_buckets_ok [OF ok3 sp3 lO2 pos3] obtain s4 i where
    i: "i < 166" and ins: "insert_into_buckets E s3 lower = Some s4"
    and ok4: "buckets_ok E s4 (insert_node s3 L2 i lower)"
    and fr4: "frame (insert lower (links (insert lower ?O2))) s3 s4"
    and mem4: "mem s4 lower = with_free (mem s3 lower) True" by blast
  define L4 where "L4 = insert_node s3 L2 i lower"
  have n4: "nodes L4 = nodes L - {higher}"
    unfolding L4_def nodes_insert_node [OF i] using lo ne by (auto simp: n2)
  have co: "coalesce E s lower higher = Some s4"
  proof -
    have "(size_at s2 lower + size_at s2 higher) mod 2 ^ 48 = S1 + S2"
      using SS z2 by simp
    then show ?thesis using ins by (simp add: coalesce_def Let_def s1_def s2_def s3_def)
  qed
  define R where "R = {lower, higher + S2 - 8}"
  have "frame ((links ?O \<union> {lower, higher + S2 - 8}) \<union> insert lower (links (insert lower ?O2))) s s4"
    by (rule frame_trans [OF frame_trans [OF fr2 U3(1)] fr4])
  then have fr: "frame (links ?O \<union> R) s s4"
    by (rule frame_mono) (use lo in \<open>auto simp: R_def links_def n2\<close>)
  have RR: "R \<subseteq> (\<Union>x \<in> {lower, higher}. region s x)"
    using SS by (auto simp: R_def region_def S1_def S2_def)
  have XX: "{lower, higher} \<subseteq> blocks s T" using loT hiT by simp
  note FB = frame_block [OF r t fr Osub RR XX]
  have g: "same_globals s s4" by (rule frame_globals [OF fr])
  have mi: "mapping_index s4 = mapping_index s" and mp: "mappings s4 = mappings s"
    using g by (simp_all add: same_globals_def)
  define T' where "T' = T(m := pre @ lower # post)"
  have others: "higher \<notin> set (T m')" if "m' < mapping_index s" "m' \<noteq> m" for m'
    using block_mapping_unique [OF r t that(1) _ m(1), of higher] that(2) Tm by auto
  have bl: "blocks s4 T' = blocks s T - {higher}"
  proof -
    have a: "blocks s4 T' = (\<Union>m' \<in> {..<mapping_index s} - {m}. set (T m')) \<union> set (pre @ lower # post)"
      unfolding T'_def by (rule blocks_upd [OF m(1) mi])
    have b: "blocks s T = (\<Union>m' \<in> {..<mapping_index s} - {m}. set (T m')) \<union> set (pre @ lower # higher # post)"
    proof -
      have "T(m := T m) = T" by simp
      with blocks_upd [OF m(1) refl, of T "T m"] show ?thesis by (simp only: Tm [symmetric])
    qed
    show ?thesis unfolding a b using others dist by auto
  qed
  have mem4l: "size_at s4 lower = S1 + S2" "mapping_at s4 lower = m" "free_at s4 lower"
    using mem4 U3(2,4) hd2 [of lower] loT
    by (simp_all add: size_at_def mapping_at_def free_at_def m_def)
  have ft4: "mem s4 (higher + S2 - 8) = S1 + S2"
  proof -
    have "higher + S2 - 8 \<notin> links (insert lower ?O2)"
    proof
      assume "higher + S2 - 8 \<in> links (insert lower ?O2)"
      then obtain x where x: "x \<in> insert lower ?O2" "higher + S2 - 8 = x + 8 \<or> higher + S2 - 8 = x + 16"
        by (auto simp: links_def)
      then have xo: "x \<in> sentinels E \<union> blocks s T" using O2 loT by auto
      from header_not_footer [OF r t xo hiT, of 8] header_not_footer [OF r t xo hiT, of 16] x(2)
      show False by (auto simp: S2_def)
    qed
    moreover have "higher + S2 - 8 \<noteq> lower" using SS by simp
    ultimately have "mem s4 (higher + S2 - 8) = mem s3 (higher + S2 - 8)"
      using frame_mem [OF fr4] by simp
    then show ?thesis using U3(3) by simp
  qed
  have okl: "block_ok s4 m lower"
    using mem4l ft4 SS e3 by (simp add: block_ok_def)
  have t': "tiled s4 T'"
    unfolding tiled_def
  proof (intro allI impI)
    fix m' assume "m' < mapping_index s4"
    then have m': "m' < mapping_index s" using mi by simp
    have other: "tiles s4 k lo bs hi = tiles s k lo bs hi" if "set bs \<subseteq> blocks s T - {lower, higher}" for k lo bs hi
      by (rule tiles_frame') (use that FB(2,3,4) in auto)
    show "tiles s4 m' (fst (mappings s4 m')) (T' m') (snd (mappings s4 m'))"
    proof (cases "m' = m")
      case False
      have "lower \<notin> set (T m')"
        using block_mapping_unique [OF r t m' _ m] False by auto
      then have "set (T m') \<subseteq> blocks s T - {lower, higher}"
        using others [OF m' False] m' by (auto simp: blocks_def)
      from other [OF this] t m' False show ?thesis by (simp add: T'_def mp tiled_def)
    next
      case True
      have "set pre \<subseteq> blocks s T - {lower, higher}" "set post \<subseteq> blocks s T - {lower, higher}"
        using dist m(1) Tm by (auto simp: blocks_def)
      from other [OF this(1)] other [OF this(2)] tp tq
      have a: "tiles s4 m (fst (mappings s m)) pre lower" "tiles s4 m (higher + S2) post (snd (mappings s m))"
        by simp_all
      have "lower + (S1 + S2) = higher + S2" using SS by simp
      with a(2) have "tiles s4 m (lower + (S1 + S2)) post (snd (mappings s m))" by (simp only:)
      with a(1) show ?thesis using okl mem4l(1) True
        by (simp add: T'_def mp tiles_append)
    qed
  qed
  have fl4: "free_at s4 c = free_at s c" if "c \<in> blocks s T - {lower, higher}" for c
    using FB(5) [of c] that by simp
  have "heap_inv_but {} E s4 L4 T'"
  proof (rule heap_inv_butI)
    show "initialized s4" using D(1) g by (simp add: same_globals_def)
    show "registry_ok E s4" using r registry_ok_same [OF g] by simp
    show "tiled s4 T'" by (rule t')
    show "buckets_ok E s4 L4" using ok4 by (simp add: L4_def)
    show "nodes L4 \<subseteq> blocks s4 T' - {}" using D(5) by (auto simp: n4 bl)
  next
    fix c assume c: "c \<in> blocks s4 T'" "c \<notin> {}"
    show "free_at s4 c \<longleftrightarrow> c \<in> nodes L4"
    proof (cases "c = lower")
      case True
      then show ?thesis using mem4l(3) lo ne by (simp add: n4)
    next
      case False
      with c have cb: "c \<in> blocks s T - {lower, higher}" by (auto simp: bl)
      then have "c \<in> blocks s T" "c \<notin> {}" by auto
      from fl4 [OF cb] D(6) [OF this] cb show ?thesis by (simp add: n4)
    qed
  qed
  then have inv4: "heap_inv E s4 L4 T'" by (simp add: heap_inv_def)
  have "lower \<in> nodes L4" using lo ne by (simp add: n4)
  with co inv4 g bl fl4 mem4l show ?thesis
    unfolding m_def S1_def S2_def by blast
qed

lemma bucket_index_mono:
  assumes "sz \<le> sz'" "sz' < 2 ^ 63"
  shows "\<exists>i i'. bucket_index_from_size sz = Some i \<and> bucket_index_from_size sz' = Some i' \<and> i \<le> i'"
proof -
  have big: "\<exists>k. bucket_index_from_size z = Some (k + 118) \<and> 10 \<le> k \<and> 2 ^ k \<le> z \<and> z < 2 ^ (k + 1)"
    if z: "1024 \<le> z" "z < 2 ^ 63" for z
  proof -
    from z have "2 ^ 10 \<le> z" by simp
    then obtain k where k: "bucket_index_loop z 10 = Some k" "10 \<le> k" "k < 63" "2 ^ k \<le> z" "z < 2 ^ (k + 1)"
      using bucket_index_loop_spec [of 10 z] z(2) by auto
    then show ?thesis using z(1) by (auto simp: bucket_index_from_size_def MEM_UNIT_def)
  qed
  have small: "bucket_index_from_size z = Some (z div 8)" if "z < 1024" for z
    using that by (simp add: bucket_index_from_size_def MEM_UNIT_def)
  consider "sz' < 1024" | "sz < 1024" "1024 \<le> sz'" | "1024 \<le> sz" using assms by linarith
  then show ?thesis
  proof cases
    case 1
    then show ?thesis using small [of sz] small [of sz'] assms(1) by (simp add: div_le_mono)
  next
    case 2
    from big [OF 2(2) assms(2)] obtain k where "bucket_index_from_size sz' = Some (k + 118)" "10 \<le> k"
      by auto
    then show ?thesis using small [OF 2(1)] 2(1) by simp
  next
    case 3
    then have 4: "1024 \<le> sz'" "sz < 2 ^ 63" using assms by simp_all
    from big [OF 3 4(2)] obtain k where k: "bucket_index_from_size sz = Some (k + 118)" "2 ^ k \<le> sz" by auto
    from big [OF 4(1) assms(2)] obtain k' where
      k': "bucket_index_from_size sz' = Some (k' + 118)" "sz' < 2 ^ (k' + 1)" by auto
    have "(2::nat) ^ k < 2 ^ (k' + 1)" using k(2) k'(2) assms(1) by linarith
    then have "k < k' + 1" by (rule power_less_imp_less_exp [rotated]) simp
    then show ?thesis using k(1) k'(1) by simp
  qed
qed

text \<open>The walk along a bucket: the first member of size at least \<open>sz\<close> is taken.\<close>

lemma get_block_from_bucket_loop_walk:
  assumes "chain s (p # xs @ [h])" "size_at s h = 0" "\<forall>x \<in> set xs. 0 < size_at s x"
  shows "get_block_from_bucket_loop E s (hd (xs @ [h])) sz =
    (case dropWhile (\<lambda>x. size_at s x < sz) xs of
       [] \<Rightarrow> Some (s, NULL)
     | b # rest \<Rightarrow> adjusted_block E (remove_from_bucket s b) b sz)"
  using assms
proof (induction xs arbitrary: p)
  case Nil
  then show ?case by (simp add: get_block_from_bucket_loop_end)
next
  case (Cons x xs)
  have pos: "0 < size_at s x" using Cons.prems(3) by simp
  show ?case
  proof (cases "sz \<le> size_at s x")
    case True
    then show ?thesis using pos by (simp add: get_block_from_bucket_loop_hit)
  next
    case False
    have nx: "next_at s x = hd (xs @ [h])" and ch: "chain s (x # xs @ [h])"
      using Cons.prems(1) by (cases xs; simp)+
    have "get_block_from_bucket_loop E s x sz = get_block_from_bucket_loop E s (hd (xs @ [h])) sz"
      using False pos nx by (simp add: get_block_from_bucket_loop_step)
    also have "\<dots> = (case dropWhile (\<lambda>x. size_at s x < sz) xs of
       [] \<Rightarrow> Some (s, NULL)
     | b # rest \<Rightarrow> adjusted_block E (remove_from_bucket s b) b sz)"
      by (rule Cons.IH [OF ch Cons.prems(2)]) (use Cons.prems(3) in simp)
    finally show ?thesis using False by simp
  qed
qed

lemma get_block_from_bucket_walk:
  assumes "buckets_ok E s L" "i < 166"
  shows "get_block_from_bucket E s (bucket E i) sz =
    (case dropWhile (\<lambda>x. size_at s x < sz) (L i) of
       [] \<Rightarrow> Some (s, NULL)
     | b # rest \<Rightarrow> adjusted_block E (remove_from_bucket s b) b sz)"
proof -
  note D = buckets_okD [OF assms]
  have nx: "next_at s (bucket E i) = hd (L i @ [bucket E i])"
    using D(1) by (cases "L i") simp_all
  have pos: "\<forall>x \<in> set (L i). 0 < size_at s x" using D(5) by auto
  show ?thesis unfolding get_block_from_bucket_def nx
    by (rule get_block_from_bucket_loop_walk [OF D(1,2) pos])
qed

lemma get_block_from_buckets_loop_miss:
  "i \<le> k \<Longrightarrow> k \<le> 166 \<Longrightarrow>
   (\<forall>j. i \<le> j \<and> j < k \<longrightarrow> get_block_from_bucket E s (bucket E j) sz = Some (s, NULL)) \<Longrightarrow>
   get_block_from_buckets_loop E s i sz = get_block_from_buckets_loop E s k sz"
proof (induction "k - i" arbitrary: i)
  case 0
  then show ?case by simp
next
  case (Suc n)
  then have ik: "i < k" by simp
  then have i: "i < NUM_BUCKETS" "Suc i mod 256 = Suc i" using Suc.prems(2) by (simp_all add: NUM_BUCKETS_def)
  have e: "get_block_from_bucket E s (bucket E i) sz = Some (s, NULL)"
    using Suc.prems(3) ik by simp
  have "get_block_from_buckets_loop E s i sz = get_block_from_buckets_loop E s (i + 1) sz"
    by (subst get_block_from_buckets_loop.simps) (simp add: i e)
  also have "\<dots> = get_block_from_buckets_loop E s k sz"
    using Suc.hyps(2) Suc.prems ik by (intro Suc.hyps(1)) simp_all
  finally show ?case .
qed

lemma get_block_from_buckets_loop_found:
  assumes "i < 166" "get_block_from_bucket E s (bucket E i) sz = Some (s', b)" "b \<noteq> NULL"
  shows "get_block_from_buckets_loop E s i sz = Some (s', b)"
  using assms by (subst get_block_from_buckets_loop.simps) (simp add: NUM_BUCKETS_def)

text \<open>Taking a member out of its bucket puts it in transit.\<close>

lemma remove_from_bucket_inv:
  assumes inv: "heap_inv E s L T" and bn: "b \<in> nodes L"
  shows "heap_inv_but {b} E (remove_from_bucket s b) (remove_node L b) T"
    "same_globals s (remove_from_bucket s b)"
    "\<forall>c \<in> blocks s T. mem (remove_from_bucket s b) c = mem s c"
proof -
  note D = heap_inv_butD [OF inv [unfolded heap_inv_def]]
  note r = D(2) and t = D(3)
  let ?O = "sentinels E \<union> nodes L"
  let ?s = "remove_from_bucket s b"
  have Osub: "?O \<subseteq> sentinels E \<union> blocks s T" using D(5) by auto
  have sp: "spread ?O" by (rule spread_mono [OF objects_spread [OF r t] Osub])
  note R = remove_from_bucket_ok [OF D(4) sp bn]
  have fr: "frame (links ?O \<union> {}) s ?s" by (rule frame_mono [OF R(2)]) (auto simp: links_def)
  note FB = frame_block [OF r t fr Osub, of "{}"]
  show g: "same_globals s ?s" by (rule frame_globals [OF fr])
  show hd: "\<forall>c \<in> blocks s T. mem ?s c = mem s c" using FB(1) by simp
  have bl: "blocks ?s T = blocks s T" by (rule blocks_same [OF g])
  have "tiled ?s T = tiled s T"
    by (rule tiled_frame [OF g]) (use FB(2,3,4) in simp)
  then have t': "tiled ?s T" using t by simp
  show "heap_inv_but {b} E ?s (remove_node L b) T"
  proof (rule heap_inv_butI)
    show "initialized ?s" using D(1) g by (simp add: same_globals_def)
    show "registry_ok E ?s" using r registry_ok_same [OF g] by simp
    show "tiled ?s T" by (rule t')
    show "buckets_ok E ?s (remove_node L b)" by (rule R(1))
    show "nodes (remove_node L b) \<subseteq> blocks ?s T - {b}" using D(5) by (auto simp: nodes_remove_node bl)
  next
    fix c assume c: "c \<in> blocks ?s T" "c \<notin> {b}"
    then have cb: "c \<in> blocks s T" "c \<notin> {}" by (simp_all add: bl)
    have "free_at ?s c = free_at s c" using hd cb(1) by (simp add: free_at_def)
    with D(6) [OF cb] c(2) show "free_at ?s c \<longleftrightarrow> c \<in> nodes (remove_node L b)"
      by (simp add: nodes_remove_node)
  qed
qed


lemma get_block_from_bucket_miss:
  assumes "buckets_ok E s L" "i < 166" "\<forall>x \<in> set (L i). size_at s x < sz"
  shows "get_block_from_bucket E s (bucket E i) sz = Some (s, NULL)"
proof -
  have dw: "dropWhile (\<lambda>x. size_at s x < sz) (L i) = []" using assms(3) by simp
  show ?thesis unfolding get_block_from_bucket_walk [OF assms(1,2)] dw by simp
qed

lemma get_block_from_bucket_hit:
  assumes inv: "heap_inv E s L T" and i: "i < 166" and sz: "32 \<le> sz" "sz + 32 < 2 ^ 64"
    and dw: "dropWhile (\<lambda>x. size_at s x < sz) (L i) = b # rest"
  shows "\<exists>s' L' T'. get_block_from_bucket E s (bucket E i) sz = Some (s', b) \<and>
           heap_inv_but {b} E s' L' T' \<and> same_globals s s' \<and> blocks s T \<subseteq> blocks s' T' \<and>
           (\<forall>c \<in> blocks s T. free_at s' c = free_at s c) \<and> sz \<le> size_at s' b"
    and "b \<in> set (L i)" "sz \<le> size_at s b" "b \<noteq> NULL" "b \<in> blocks s T"
    and "\<forall>x \<in> set (L i). sz \<le> size_at s x \<longrightarrow> size_at s b \<le> size_at s x"
proof -
  note D = heap_inv_butD [OF inv [unfolded heap_inv_def]]
  note r = D(2) and t = D(3)
  let ?P = "\<lambda>x. size_at s x < sz"
  have Li: "L i = takeWhile ?P (L i) @ b # rest" using dw takeWhile_dropWhile_id [of ?P "L i"] by simp
  then show bi: "b \<in> set (L i)" by (metis in_set_conv_decomp)
  have "\<not> ?P (hd (dropWhile ?P (L i)))" by (rule hd_dropWhile) (simp add: dw)
  then show big: "sz \<le> size_at s b" by (simp add: dw)
  have bn: "b \<in> nodes L" using bi i by (rule nodes_memI [rotated])
  then show bT: "b \<in> blocks s T" using D(5) by auto
  show "b \<noteq> NULL" using block_size_ge(2) [OF r t bT] by (simp add: NULL_def)
  show "\<forall>x \<in> set (L i). sz \<le> size_at s x \<longrightarrow> size_at s b \<le> size_at s x"
  proof (intro ballI impI)
    fix x assume x: "x \<in> set (L i)" "sz \<le> size_at s x"
    have "sorted (map (size_at s) (takeWhile ?P (L i) @ b # rest))"
      using buckets_okD(4) [OF D(4) i] Li by simp
    then have after: "\<forall>y \<in> set rest. size_at s b \<le> size_at s y" by (simp add: sorted_append)
    from x(1) Li have "x \<in> set (takeWhile ?P (L i)) \<or> x = b \<or> x \<in> set rest"
      by (metis Un_iff set_append set_ConsD)
    then show "size_at s b \<le> size_at s x"
    proof (elim disjE)
      assume "x \<in> set (takeWhile ?P (L i))"
      then have "?P x" by (auto dest: set_takeWhileD)
      with x(2) show ?thesis by simp
    qed (use after in auto)
  qed
  note R = remove_from_bucket_inv [OF inv bn]
  define s1 where "s1 = remove_from_bucket s b"
  have bl1: "blocks s1 T = blocks s T" using blocks_same [OF R(2)] by (simp add: s1_def)
  have bT1: "b \<in> blocks s1 T" using bT bl1 by simp
  have hd1: "mem s1 c = mem s c" if "c \<in> blocks s T" for c using R(3) that by (simp add: s1_def)
  from adjusted_block_inv [OF R(1) [folded s1_def] bT1 sz] obtain s' L' T' where
    a: "adjusted_block E s1 b sz = Some (s', b)" "heap_inv_but {b} E s' L' T'" "same_globals s1 s'"
      "blocks s1 T \<subseteq> blocks s' T'" "\<forall>c \<in> blocks s1 T. free_at s' c = free_at s1 c"
      "sz \<le> size_at s1 b \<longrightarrow> sz \<le> size_at s' b" by blast
  have "get_block_from_bucket E s (bucket E i) sz = Some (s', b)"
    unfolding get_block_from_bucket_walk [OF D(4) i] dw using a(1) by (simp add: s1_def)
  moreover have "same_globals s s'" using same_globals_trans [OF R(2) [folded s1_def] a(3)] .
  moreover have "blocks s T \<subseteq> blocks s' T'" using a(4) bl1 by simp
  moreover have "\<forall>c \<in> blocks s T. free_at s' c = free_at s c"
    using a(5) hd1 bl1 by (simp add: free_at_def)
  moreover have "sz \<le> size_at s' b" using a(6) big hd1 [OF bT] by (simp add: size_at_def)
  ultimately show "\<exists>s' L' T'. get_block_from_bucket E s (bucket E i) sz = Some (s', b) \<and>
           heap_inv_but {b} E s' L' T' \<and> same_globals s s' \<and> blocks s T \<subseteq> blocks s' T' \<and>
           (\<forall>c \<in> blocks s T. free_at s' c = free_at s c) \<and> sz \<le> size_at s' b"
    using a(2) by blast
qed

text \<open>
  The search through the buckets.  Either no member of any bucket is large enough and the
  search returns the null pointer, or bucket \<open>i\<close> is the first one with a member of size at
  least \<open>sz\<close>, and the first such member \<open>b\<close> of that bucket is returned.
\<close>

lemma get_block_from_buckets_none:
  assumes inv: "heap_inv E s L T" and sz: "sz < 2 ^ 63"
    and none: "\<forall>b \<in> nodes L. size_at s b < sz"
  shows "get_block_from_buckets E s sz = Some (s, NULL)"
proof -
  note D = heap_inv_butD [OF inv [unfolded heap_inv_def]]
  from bucket_index_mono [OF le_refl sz] obtain i0 where i0: "bucket_index_from_size sz = Some i0"
    by auto
  have e: "get_block_from_buckets E s sz = get_block_from_buckets_loop E s i0 sz"
    by (simp add: get_block_from_buckets_def i0)
  show ?thesis
  proof (cases "i0 < 166")
    case False
    then show ?thesis unfolding e
      by (subst get_block_from_buckets_loop.simps) (simp add: NUM_BUCKETS_def)
  next
    case True
    have "get_block_from_buckets_loop E s i0 sz = get_block_from_buckets_loop E s 166 sz"
    proof (rule get_block_from_buckets_loop_miss, goal_cases)
      case 3
      show ?case
      proof (intro allI impI)
        fix j assume j: "i0 \<le> j \<and> j < 166"
        then have "\<forall>x \<in> set (L j). size_at s x < sz" using none by (auto intro: nodes_memI)
        with j show "get_block_from_bucket E s (bucket E j) sz = Some (s, NULL)"
          by (intro get_block_from_bucket_miss [OF D(4)]) simp_all
      qed
    qed (use True in simp_all)
    then show ?thesis unfolding e by (simp add: get_block_from_buckets_loop_end)
  qed
qed

lemma get_block_from_buckets_some:
  assumes inv: "heap_inv E s L T" and sz: "32 \<le> sz" "sz < 2 ^ 63"
    and some: "\<exists>b \<in> nodes L. sz \<le> size_at s b"
  shows "\<exists>i0 i b rest s' L' T'. bucket_index_from_size sz = Some i0 \<and> i0 \<le> i \<and> i < 166 \<and>
      (\<forall>j < i. \<forall>x \<in> set (L j). size_at s x < sz) \<and>
      dropWhile (\<lambda>x. size_at s x < sz) (L i) = b # rest \<and>
      (\<forall>x \<in> set (L i). sz \<le> size_at s x \<longrightarrow> size_at s b \<le> size_at s x) \<and>
      get_block_from_buckets E s sz = Some (s', b) \<and> b \<noteq> NULL \<and> b \<in> blocks s T \<and>
      heap_inv_but {b} E s' L' T' \<and> same_globals s s' \<and> blocks s T \<subseteq> blocks s' T' \<and>
      (\<forall>c \<in> blocks s T. free_at s' c = free_at s c) \<and> sz \<le> size_at s' b"
proof -
  note D = heap_inv_butD [OF inv [unfolded heap_inv_def]]
  let ?P = "\<lambda>x. size_at s x < sz"
  let ?has = "\<lambda>j. j < 166 \<and> (\<exists>x \<in> set (L j). sz \<le> size_at s x)"
  from bucket_index_mono [OF le_refl sz(2)] obtain i0 where i0: "bucket_index_from_size sz = Some i0"
    by auto
  from some have "\<exists>j. ?has j" by (auto simp: nodes_def)
  then obtain j0 where "?has j0" ..
  define i where "i = (LEAST j. ?has j)"
  have hi: "?has i" unfolding i_def by (rule LeastI [of ?has, OF \<open>?has j0\<close>])
  have lo: "\<not> ?has j" if "j < i" for j using not_less_Least [of j ?has] that by (simp add: i_def)
  have before: "\<forall>j < i. \<forall>x \<in> set (L j). size_at s x < sz"
  proof (intro allI impI ballI)
    fix j x assume "j < i" "x \<in> set (L j)"
    with lo [of j] hi show "size_at s x < sz" by (auto simp: not_le)
  qed
  from hi obtain x where x: "x \<in> set (L i)" "sz \<le> size_at s x" by auto
  have i0i: "i0 \<le> i"
  proof -
    have "size_at s x < 2 ^ 63" using size_at_bound [of s x] by simp
    from bucket_index_mono [OF x(2) this] i0 buckets_okD(6) [OF D(4) _ x(1)] hi
    show ?thesis by auto
  qed
  have "\<not> ?P x" using x(2) by simp
  with x(1) have "dropWhile ?P (L i) \<noteq> []" unfolding dropWhile_eq_Nil_conv by blast
  then obtain b rest where dw: "dropWhile ?P (L i) = b # rest" by (cases "dropWhile ?P (L i)") auto
  have i166: "i < 166" using hi by simp
  have sz64: "sz + 32 < 2 ^ 64" using sz(2) by simp
  note H = get_block_from_bucket_hit [OF inv i166 sz(1) sz64 dw]
  from H(1) obtain s' L' T' where
    g: "get_block_from_bucket E s (bucket E i) sz = Some (s', b)"
    and rest: "heap_inv_but {b} E s' L' T'" "same_globals s s'" "blocks s T \<subseteq> blocks s' T'"
      "\<forall>c \<in> blocks s T. free_at s' c = free_at s c" "sz \<le> size_at s' b" by blast
  have "get_block_from_buckets_loop E s i0 sz = get_block_from_buckets_loop E s i sz"
  proof (rule get_block_from_buckets_loop_miss [OF i0i], goal_cases)
    case 2
    show ?case
    proof (intro allI impI)
      fix j assume j: "i0 \<le> j \<and> j < i"
      then have "j < 166" "\<forall>x \<in> set (L j). size_at s x < sz" using before i166 by auto
      then show "get_block_from_bucket E s (bucket E j) sz = Some (s, NULL)"
        by (rule get_block_from_bucket_miss [OF D(4)])
    qed
  qed (use i166 in simp)
  also have "\<dots> = Some (s', b)" by (rule get_block_from_buckets_loop_found [OF i166 g H(4)])
  finally have "get_block_from_buckets E s sz = Some (s', b)"
    by (simp add: get_block_from_buckets_def i0)
  with i0 i0i i166 before dw H(6) H(4) H(5) rest show ?thesis by blast
qed




lemma blocks_errno [simp]: "blocks (s\<lparr>errno := e\<rparr>) T = blocks s T"
  by (simp add: blocks_def)

lemma free_at_errno [simp]: "free_at (s\<lparr>errno := e\<rparr>) c = free_at s c"
  by (simp add: free_at_def)









lemma allocatedD:
  "b \<in> allocated s T \<Longrightarrow> b \<in> blocks s T" "b \<in> allocated s T \<Longrightarrow> \<not> free_at s b"
  by (simp_all add: allocated_def)

lemma heap_inv_free_iff:
  assumes "heap_inv E s L T" "c \<in> blocks s T"
  shows "free_at s c \<longleftrightarrow> c \<in> nodes L"
  using heap_inv_butD(6) [OF assms(1) [unfolded heap_inv_def] assms(2)] by simp

text \<open>
  \<^verbatim>\<open>free_\<close> on the payload address of a block in use: the block goes into its bucket, is
  merged with a free successor and a free predecessor of the same mapping, and the invariant
  holds again.  In the resulting state a free block covers the addresses of the block.
\<close>

lemma my_free_inv:
  assumes inv: "heap_inv E s L T" and b: "b \<in> allocated s T"
  shows "\<exists>s' L' T'. my_free E s (b + 8) = Some s' \<and> heap_inv E s' L' T' \<and> same_globals s s' \<and>
           allocated s T - {b} \<subseteq> allocated s' T' \<and>
           (\<exists>c \<in> blocks s' T'. free_at s' c \<and> c \<le> b \<and> b + size_at s b \<le> c + size_at s' c)"
proof -
  note D = heap_inv_butD [OF inv [unfolded heap_inv_def]]
  have bT: "b \<in> blocks s T" and nf: "\<not> free_at s b" using b by (simp_all add: allocated_def)
  note B = block_size_ge [OF D(2,3) bT]
  define S where "S = size_at s b"
  define m where "m = mapping_at s b"
  have b48: "b + S \<le> 2 ^ 48" "32 \<le> S" "0 < b" using B by (simp_all add: S_def)
  txt \<open>the block goes into its bucket\<close>
  from insert_into_buckets_inv [OF heap_inv_weaken [OF inv bT nf] bT] obtain s1 i where
    i: "i < 166" and ins: "insert_into_buckets E s b = Some s1"
    and inv1: "heap_inv E s1 (insert_node s L i b) T"
    and g1: "same_globals s s1" and mem1: "mem s1 b = with_free (mem s b) True" by blast
  define L1 where "L1 = insert_node s L i b"
  have n1: "nodes L1 = insert b (nodes L)" unfolding L1_def by (rule nodes_insert_node [OF i])
  note D1 = heap_inv_butD [OF inv1 [unfolded heap_inv_def, folded L1_def]]
  have bl1: "blocks s1 T = blocks s T" by (rule blocks_same [OF g1])
  have z1: "size_at s1 b = S" "mapping_at s1 b = m" "free_at s1 b"
    using mem1 by (simp_all add: size_at_def mapping_at_def free_at_def S_def m_def)
  have bT1: "b \<in> blocks s1 T" using bT bl1 by simp
  have al1: "allocated s T - {b} \<subseteq> allocated s1 T"
  proof
    fix c assume "c \<in> allocated s T - {b}"
    then have c: "c \<in> blocks s T" "\<not> free_at s c" "c \<noteq> b" by (auto simp: allocated_def)
    then have "c \<notin> nodes L" using heap_inv_free_iff [OF inv c(1)] by simp
    then have "c \<notin> nodes L1" using c(3) by (simp add: n1)
    then have "\<not> free_at s1 c" using D1(6) [of c] c(1) bl1 by simp
    then show "c \<in> allocated s1 T" using c(1) bl1 by (simp add: allocated_def)
  qed
  have mp1: "mappings s1 = mappings s" "mapping_index s1 = mapping_index s"
    using g1 by (simp_all add: same_globals_def)
  note B1 = block_size_ge [OF D1(2,3) bT1, unfolded z1]
  txt \<open>a free successor is merged\<close>
  define nb where "nb = b + S"
  have "\<exists>s2 L2 T2. (if nb < snd (mappings s1 m) \<and> free_at s1 nb then coalesce E s1 b nb else Some s1) = Some s2 \<and>
          heap_inv E s2 L2 T2 \<and> same_globals s1 s2 \<and> allocated s1 T - {b} \<subseteq> allocated s2 T2 \<and>
          b \<in> nodes L2 \<and> mapping_at s2 b = m \<and> S \<le> size_at s2 b"
  proof (cases "nb < snd (mappings s1 m) \<and> free_at s1 nb")
    case False
    have "b \<in> nodes L1" by (simp add: n1)
    with False inv1 z1 show ?thesis
      by (intro exI [of _ s1] exI [of _ L1] exI [of _ T]) (auto simp: L1_def)
  next
    case True
    have tm: "tiles s1 m (fst (mappings s1 m)) (T m) (snd (mappings s1 m))"
      using D1(3) B1(4) by (simp add: tiled_def)
    have "b + size_at s1 b \<in> set (T m)"
      by (rule tiles_next [OF tm B1(5)]) (use True z1 in \<open>simp add: nb_def\<close>)
    then have nbT: "nb \<in> blocks s1 T" using B1(4) z1 by (auto simp: blocks_def nb_def)
    then have nbn: "nb \<in> nodes L1" using D1(6) [of nb] True by simp
    have bn: "b \<in> nodes L1" by (simp add: n1)
    have adj: "nb = b + size_at s1 b" by (simp add: nb_def z1)
    have sm: "nb < snd (mappings s1 (mapping_at s1 b))" using True z1 by simp
    from coalesce_inv [OF inv1 [folded L1_def] bn nbn adj sm] obtain s2 L2 T2 where
      c: "coalesce E s1 b nb = Some s2" "heap_inv E s2 L2 T2" "same_globals s1 s2"
        "blocks s2 T2 = blocks s1 T - {nb}" "\<forall>c \<in> blocks s1 T - {b, nb}. free_at s2 c = free_at s1 c"
        "b \<in> nodes L2" "mapping_at s2 b = mapping_at s1 b"
        "size_at s2 b = size_at s1 b + size_at s1 nb" by blast
    have "allocated s1 T - {b} \<subseteq> allocated s2 T2"
    proof
      fix x assume "x \<in> allocated s1 T - {b}"
      then have x: "x \<in> blocks s1 T" "\<not> free_at s1 x" "x \<noteq> b" by (auto simp: allocated_def)
      then have "x \<noteq> nb" using True by auto
      then show "x \<in> allocated s2 T2" using x c(4,5) by (auto simp: allocated_def)
    qed
    with True c z1 show ?thesis
      by (intro exI [of _ s2] exI [of _ L2] exI [of _ T2]) simp
  qed
  then obtain s2 L2 T2 where
    st2: "(if nb < snd (mappings s1 m) \<and> free_at s1 nb then coalesce E s1 b nb else Some s1) = Some s2"
    and inv2: "heap_inv E s2 L2 T2" and g2: "same_globals s1 s2"
    and al2: "allocated s1 T - {b} \<subseteq> allocated s2 T2"
    and z2: "b \<in> nodes L2" "mapping_at s2 b = m" "S \<le> size_at s2 b" by blast
  note D2 = heap_inv_butD [OF inv2 [unfolded heap_inv_def]]
  have bT2: "b \<in> blocks s2 T2" using D2(5) z2(1) by auto
  have fb2: "free_at s2 b" using D2(6) [OF bT2] z2(1) by simp
  note B2 = block_size_ge [OF D2(2,3) bT2, unfolded z2(2)]
  have g02: "same_globals s s2" by (rule same_globals_trans [OF g1 g2])
  have al02: "allocated s T - {b} \<subseteq> allocated s2 T2"
  proof
    fix c assume c: "c \<in> allocated s T - {b}"
    then have "c \<in> allocated s1 T - {b}" using al1 by auto
    then show "c \<in> allocated s2 T2" using al2 by auto
  qed
  txt \<open>a free predecessor takes the block over\<close>
  have ptr: "b + 8 \<noteq> NULL" "sub64 (b + 8) METADATA_OFFSET = b"
    using b48 by (simp_all add: NULL_def METADATA_OFFSET_def sub64_nowrap)
  have nxt: "add64 b S = nb" using b48 by (simp add: add64_nowrap nb_def)
  have fr0: "my_free E s (b + 8) =
    (if b = fst (mappings s2 m) then Some s2
     else if free_at s2 (sub64 b (mem s2 (sub64 b sizeof_footer_t)))
          then coalesce E s2 (sub64 b (mem s2 (sub64 b sizeof_footer_t))) b else Some s2)"
    by (simp only: my_free_def Let_def ptr if_False ins Option.bind.simps nxt z1(1,2) st2 z2(2))
  show ?thesis
  proof (cases "b = fst (mappings s2 m)")
    case True
    then have "my_free E s (b + 8) = Some s2" unfolding fr0 by simp
    moreover have "\<exists>c \<in> blocks s2 T2. free_at s2 c \<and> c \<le> b \<and> b + size_at s b \<le> c + size_at s2 c"
      using bT2 fb2 z2(3) by (intro bexI [of _ b]) (simp_all add: S_def)
    ultimately show ?thesis using inv2 g02 al02 by blast
  next
    case False
    have tm: "tiles s2 m (fst (mappings s2 m)) (T2 m) (snd (mappings s2 m))"
      using D2(3) B2(4) by (simp add: tiled_def)
    define pv where "pv = b - mem s2 (b - 8)"
    from tiles_prev [OF tm B2(5) False] have pvT: "pv \<in> set (T2 m)" and pvz: "pv + size_at s2 pv = b"
      by (simp_all add: pv_def)
    have pvb: "pv \<in> blocks s2 T2" using pvT B2(4) by (auto simp: blocks_def)
    note Bp = block_size_ge [OF D2(2,3) pvb]
    have "mem s2 (b - 8) < b" using Bp(2) by (simp add: pv_def)
    moreover have "8 \<le> b" using Bp(1) pvz by simp
    moreover have "b < 2 ^ 64" using b48 by simp
    ultimately have pv: "sub64 b (mem s2 (sub64 b sizeof_footer_t)) = pv"
      by (simp add: sizeof_footer_t_def sub64_nowrap pv_def)
    have mpv: "mapping_at s2 pv = m"
      using block_facts(1) [OF D2(2,3) B2(4) pvT] by (simp add: block_ok_def)
    show ?thesis
    proof (cases "free_at s2 pv")
      case nfp: False
      then have "my_free E s (b + 8) = Some s2" using False by (simp add: fr0 pv)
      moreover have "\<exists>c \<in> blocks s2 T2. free_at s2 c \<and> c \<le> b \<and> b + size_at s b \<le> c + size_at s2 c"
        using bT2 fb2 z2(3) by (intro bexI [of _ b]) (simp_all add: S_def)
      ultimately show ?thesis using inv2 g02 al02 by blast
    next
      case True
      then have pvn: "pv \<in> nodes L2" using D2(6) [OF pvb] by simp
      have adj: "b = pv + size_at s2 pv" using pvz by simp
      have sm: "b < snd (mappings s2 (mapping_at s2 pv))" using B2(7) B2(1) by (simp add: mpv)
      from coalesce_inv [OF inv2 pvn z2(1) adj sm] obtain s3 L3 T3 where
        c: "coalesce E s2 pv b = Some s3" "heap_inv E s3 L3 T3" "same_globals s2 s3"
          "blocks s3 T3 = blocks s2 T2 - {b}" "\<forall>c \<in> blocks s2 T2 - {pv, b}. free_at s3 c = free_at s2 c"
          "pv \<in> nodes L3" "size_at s3 pv = size_at s2 pv + size_at s2 b" by blast
      note D3 = heap_inv_butD [OF c(2) [unfolded heap_inv_def]]
      have "my_free E s (b + 8) = Some s3" using False True c(1) by (simp add: fr0 pv)
      moreover have "same_globals s s3" by (rule same_globals_trans [OF g02 c(3)])
      moreover have "allocated s T - {b} \<subseteq> allocated s3 T3"
      proof
        fix x assume "x \<in> allocated s T - {b}"
        then have "x \<in> allocated s2 T2" "x \<noteq> b" using al02 by auto
        then have x: "x \<in> blocks s2 T2" "\<not> free_at s2 x" "x \<noteq> b" by (auto simp: allocated_def)
        then have "x \<noteq> pv" using True by auto
        then show "x \<in> allocated s3 T3" using x c(4,5) by (auto simp: allocated_def)
      qed
      moreover have "\<exists>c \<in> blocks s3 T3. free_at s3 c \<and> c \<le> b \<and> b + size_at s b \<le> c + size_at s3 c"
      proof (intro bexI [of _ pv] conjI)
        show pv3: "pv \<in> blocks s3 T3" using D3(5) c(6) by auto
        show "free_at s3 pv" using D3(6) [OF pv3] c(6) by simp
        show "pv \<le> b" using pvz by simp
        show "b + size_at s b \<le> pv + size_at s3 pv" using c(7) pvz z2(3) by (simp add: S_def)
      qed
      ultimately show ?thesis using c(2) by blast
    qed
  qed
qed











lemma allocated_errno [simp]: "allocated (s\<lparr>errno := e\<rparr>) T = allocated s T"
  by (simp add: allocated_def)











section \<open>The scenarios\<close>

lemma base_fields [simp]:
  "initialized (base E a e) = True" "mapping_index (base E a e) = 1"
  "mappings (base E a e) 0 = (a, a + 131072)" "errno (base E a e) = e"
  by (simp_all add: base_def)

lemma mem_base_bucket:
  assumes "layout E a" "j < 166"
  shows "mem (base E a e) (bucket E j) = 0"
    "mem (base E a e) (bucket E j + 8) = bucket E j"
    "mem (base E a e) (bucket E j + 16) = bucket E j"
    "mem (base E a e) (8 + bucket E j) = bucket E j"
    "mem (base E a e) (16 + bucket E j) = bucket E j"
  using assms by (auto simp add: base_def layout_def init_cell_def mem_initialize_buckets bucket_def sizeof_header_t_def)

lemma mem_base_heap:
  "d < 131072 \<Longrightarrow> mem (base E a e) (a + d) = 0"
  "d < 131072 \<Longrightarrow> mem (base E a e) (d + a) = 0"
  "mem (base E a e) a = 0"
  by (simp_all add: base_def)

lemma bucket_cell_eq:
  "k < 24 \<Longrightarrow> l < 24 \<Longrightarrow> (bucket E i + k = bucket E j + l) = (i = j \<and> k = l)"
  "l < 24 \<Longrightarrow> (bucket E i = bucket E j + l) = (i = j \<and> l = 0)"
  "k < 24 \<Longrightarrow> (bucket E i + k = bucket E j) = (i = j \<and> k = 0)"
  "(bucket E i = bucket E j) = (i = j)"
  unfolding bucket_def sizeof_header_t_def by presburger+

lemma heap_bucket_ne:
  assumes "layout E a" "j < 166"
  shows "k < 24 \<Longrightarrow> d < 131072 \<Longrightarrow> bucket E j + k \<noteq> a + d"
    "k < 24 \<Longrightarrow> d < 131072 \<Longrightarrow> bucket E j + k \<noteq> d + a"
    "k < 24 \<Longrightarrow> bucket E j + k \<noteq> a"
    "d < 131072 \<Longrightarrow> bucket E j \<noteq> a + d"
    "d < 131072 \<Longrightarrow> bucket E j \<noteq> d + a"
    "bucket E j \<noteq> a"
    "k < 24 \<Longrightarrow> d < 131072 \<Longrightarrow> a + d \<noteq> bucket E j + k"
    "k < 24 \<Longrightarrow> d < 131072 \<Longrightarrow> d + a \<noteq> bucket E j + k"
    "k < 24 \<Longrightarrow> a \<noteq> bucket E j + k"
    "d < 131072 \<Longrightarrow> a + d \<noteq> bucket E j"
    "d < 131072 \<Longrightarrow> d + a \<noteq> bucket E j"
    "a \<noteq> bucket E j"
  using assms unfolding layout_def bucket_def sizeof_header_t_def by auto

lemma layoutD:
  "layout E a \<Longrightarrow> page_size E = 4096" "layout E a \<Longrightarrow> 0 < a" "layout E a \<Longrightarrow> a + 131072 < 2 ^ 64"
  by (simp_all add: layout_def)

lemma fold_base:
  "(zero_fill (initialize_buckets E cold) a 131072)\<lparr>mappings := (mappings cold)(0 := (a, a + 131072))\<rparr>
   = (base E a 0)\<lparr>mapping_index := 0\<rparr>"
  by (rule state_eqI) (simp_all add: base_def)

lemma cold_malloc_8:
  assumes "layout E a" "mmap E 131072 = Some a"
  shows "my_malloc E cold 8 = Some (post8 E a 0, a + 8)"
proof -
  note l = layoutD [OF assms(1)]
  note h = heap_bucket_ne [OF assms(1)]
  note bb = mem_base_bucket [OF assms(1)] mem_base_heap
  have m: "my_malloc E cold 8 = do { (s3, h) \<leftarrow> get_block_from_os E (initialize_buckets E cold) 32;
             if h = NULL then Some (s3, NULL) else Some (set_free s3 h False, add64 h METADATA_OFFSET) }"
    by (simp add: my_malloc_def aligned_8 cold_scan)
  from l assms(2) show ?thesis
    unfolding m
    apply (simp add: get_block_from_os_def round_up_32_U get_mapping_def eval_consts del: One_nat_def)
    apply (simp only: fold_base)
    apply (simp add: update_size_def eval_consts h bb del: One_nat_def)
    apply (simp add: adjusted_block_def eval_consts add64_def h bb del: One_nat_def)
    apply (simp add: split_after_def update_size_def eval_consts h bb del: One_nat_def)
    apply (simp add: insert_into_buckets_def eval_consts bucket_index_131040 h bb del: One_nat_def)
    apply (simp add: insert_into_bucket_def eval_consts h bb del: One_nat_def)
    apply (subst insert_into_bucket_loop_stop)
    apply (simp add: eval_consts h bb del: One_nat_def)
    apply (simp add: eval_consts h bb del: One_nat_def)
    apply (rule state_eqI)
    apply (simp_all add: post8_def h del: One_nat_def)
    done
qed

lemma bucket_index_131072: "bucket_index_from_size 131072 = Some 135"
  by (simp add: bucket_index_from_size_def MEM_UNIT_def bucket_index_loop.simps)

lemma free_post8:
  assumes "layout E a"
  shows "my_free E (post8 E a e) (a + 8) = Some (post_release E a e)"
proof -
  note l = layoutD [OF assms(1)]
  note h = heap_bucket_ne [OF assms(1)] bucket_cell_eq
  note bb = mem_base_bucket [OF assms(1)] mem_base_heap
  from l show ?thesis
    apply (simp add: my_free_def eval_consts post8_def h bb del: One_nat_def)
    apply (simp add: insert_into_buckets_def eval_consts bucket_index_32 h bb del: One_nat_def)
    apply (simp only: insert_into_bucket_def)
    apply (subst insert_into_bucket_loop_stop)
    apply (simp add: eval_consts h bb del: One_nat_def)
    apply (simp add: eval_consts h bb del: One_nat_def)
    apply (simp add: coalesce_def remove_from_bucket_def eval_consts h bb del: One_nat_def)
    apply (simp add: update_size_def eval_consts h bb del: One_nat_def)
    apply (simp add: insert_into_buckets_def eval_consts bucket_index_131072 h bb del: One_nat_def)
    apply (simp only: insert_into_bucket_def)
    apply (subst insert_into_bucket_loop_stop)
    apply (simp add: eval_consts h bb del: One_nat_def)
    apply (simp add: eval_consts h bb del: One_nat_def)
    apply (rule state_eqI)
    apply (simp_all add: post_release_def h del: One_nat_def)
    done
qed

lemma post_release_empty:
  assumes "layout E a" "j < 166" "j \<noteq> 135"
  shows "size_at (post_release E a e) (next_at (post_release E a e) (bucket E j)) = 0"
proof -
  note b = mem_base_bucket [OF assms(1,2), of e]
  note h = heap_bucket_ne [OF assms(1,2)]
  have n: "next_at (post_release E a e) (bucket E j) = bucket E j"
    using assms(3) by (simp add: post_release_def next_at_def b h bucket_cell_eq)
  show ?thesis unfolding n
    using assms(3) by (simp add: post_release_def size_at_def b h bucket_cell_eq)
qed

lemma malloc_post_release:
  assumes "layout E a"
  shows "my_malloc E (post_release E a e) 8 = Some (post_reacquire E a e, a + 8)"
proof -
  note l = layoutD [OF assms(1)]
  note h = heap_bucket_ne [OF assms(1)] bucket_cell_eq
  note bb = mem_base_bucket [OF assms(1)] mem_base_heap
  have i: "initialized (post_release E a e)" by (simp add: post_release_def)
  have "get_block_from_buckets_loop E (post_release E a e) 4 32
      = get_block_from_buckets_loop E (post_release E a e) 135 32"
    by (rule get_block_from_buckets_loop_skip) (simp_all add: post_release_empty [OF assms])
  also have "\<dots> = (case get_block_from_bucket E (post_release E a e) (bucket E 135) 32 of
          None \<Rightarrow> None
        | Some (s1, block) \<Rightarrow>
            if block \<noteq> NULL then Some (s1, block)
            else get_block_from_buckets_loop E s1 ((135 + 1) mod 256) 32)"
    by (subst get_block_from_buckets_loop.simps) (simp add: NUM_BUCKETS_def)
  finally have m: "my_malloc E (post_release E a e) 8 =
     (case get_block_from_bucket E (post_release E a e) (bucket E 135) 32 of
          None \<Rightarrow> None
        | Some (s1, block) \<Rightarrow>
            if block \<noteq> NULL then Some (s1, block)
            else get_block_from_buckets_loop E s1 ((135 + 1) mod 256) 32) \<bind>
      (\<lambda>(s2, header). (if header = NULL then get_block_from_os E s2 32 else Some (s2, header)) \<bind>
      (\<lambda>(s3, header). if header = NULL then Some (s3, NULL)
           else Some (set_free s3 header False, add64 header METADATA_OFFSET)))"
    by (simp add: my_malloc_def aligned_8 i get_block_from_buckets_def bucket_index_32)
  from l show ?thesis
    unfolding m
    apply (simp add: get_block_from_bucket_def eval_consts post_release_def h bb del: One_nat_def)
    apply (subst get_block_from_bucket_loop_hit)
    apply (simp add: eval_consts h bb del: One_nat_def)
    apply (simp add: eval_consts h bb del: One_nat_def)
    apply (simp add: remove_from_bucket_def adjusted_block_def eval_consts add64_def h bb del: One_nat_def)
    apply (simp add: split_after_def update_size_def eval_consts h bb del: One_nat_def)
    apply (simp add: insert_into_buckets_def eval_consts bucket_index_131040 h bb del: One_nat_def)
    apply (simp only: insert_into_bucket_def)
    apply (subst insert_into_bucket_loop_stop)
    apply (simp add: eval_consts h bb del: One_nat_def)
    apply (simp add: eval_consts h bb del: One_nat_def)
    apply (rule state_eqI)
    apply (simp_all add: post_reacquire_def h del: One_nat_def)
    done
qed

lemma aligned_100: "aligned 100 = 120"
  by (simp add: aligned_def round_up_power_of_two_def u64_def MEM_UNIT_def METADATA_OFFSET_def
      sizeof_footer_t_def MIN_ALLOC_def sizeof_header_t_def)

lemma round_up_120_U: "round_up_power_of_two 120 131072 = 131072"
  by (simp add: round_up_power_of_two_def u64_def)

lemma bucket_index_120: "bucket_index_from_size 120 = Some 15"
  by (simp add: bucket_index_from_size_def MEM_UNIT_def)

lemma bucket_index_88: "bucket_index_from_size 88 = Some 11"
  by (simp add: bucket_index_from_size_def MEM_UNIT_def)

lemma bucket_index_130952: "bucket_index_from_size 130952 = Some 134"
  by (simp add: bucket_index_from_size_def MEM_UNIT_def bucket_index_loop.simps)

lemma cold_scan_120:
  "get_block_from_buckets E (initialize_buckets E cold) 120 = Some (initialize_buckets E cold, NULL)"
proof -
  have "get_block_from_buckets_loop E (initialize_buckets E cold) 15 120
      = get_block_from_buckets_loop E (initialize_buckets E cold) 166 120"
    by (rule get_block_from_buckets_loop_skip) (simp_all add: init_empty)
  then show ?thesis
    by (simp add: get_block_from_buckets_def bucket_index_120 get_block_from_buckets_loop_end)
qed

lemma cold_malloc_100:
  assumes "layout E a" "mmap E 131072 = Some a"
  shows "my_malloc E cold 100 = Some (post100 E a 0, a + 8)"
proof -
  note l = layoutD [OF assms(1)]
  note h = heap_bucket_ne [OF assms(1)]
  note bb = mem_base_bucket [OF assms(1)] mem_base_heap
  have m: "my_malloc E cold 100 = do { (s3, h) \<leftarrow> get_block_from_os E (initialize_buckets E cold) 120;
             if h = NULL then Some (s3, NULL) else Some (set_free s3 h False, add64 h METADATA_OFFSET) }"
    by (simp add: my_malloc_def aligned_100 cold_scan_120)
  from l assms(2) show ?thesis
    unfolding m
    apply (simp add: get_block_from_os_def round_up_120_U get_mapping_def eval_consts del: One_nat_def)
    apply (simp only: fold_base)
    apply (simp add: update_size_def eval_consts h bb del: One_nat_def)
    apply (simp add: adjusted_block_def eval_consts add64_def h bb del: One_nat_def)
    apply (simp add: split_after_def update_size_def eval_consts h bb del: One_nat_def)
    apply (simp add: insert_into_buckets_def eval_consts bucket_index_130952 h bb del: One_nat_def)
    apply (simp only: insert_into_bucket_def)
    apply (subst insert_into_bucket_loop_stop)
    apply (simp add: eval_consts h bb del: One_nat_def)
    apply (simp add: eval_consts h bb del: One_nat_def)
    apply (rule state_eqI)
    apply (simp_all add: post100_def h del: One_nat_def)
    done
qed

lemma realloc_shrink_post100:
  assumes "layout E a"
  shows "my_realloc E (post100 E a e) (a + 8) 8 = Some (post_shrink E a e, a + 8)"
proof -
  note l = layoutD [OF assms(1)]
  note h = heap_bucket_ne [OF assms(1)] bucket_cell_eq
  note bb = mem_base_bucket [OF assms(1)] mem_base_heap
  from l show ?thesis
    apply (simp add: my_realloc_def aligned_8 eval_consts post100_def h bb del: One_nat_def)
    apply (simp add: adjusted_block_def eval_consts add64_def h bb del: One_nat_def)
    apply (simp add: split_after_def update_size_def eval_consts h bb del: One_nat_def)
    apply (simp add: insert_into_buckets_def eval_consts bucket_index_88 h bb del: One_nat_def)
    apply (simp only: insert_into_bucket_def)
    apply (subst insert_into_bucket_loop_stop)
    apply (simp add: eval_consts h bb del: One_nat_def)
    apply (simp add: eval_consts h bb del: One_nat_def)
    apply (rule state_eqI)
    apply (simp_all add: post_shrink_def h del: One_nat_def)
    done
qed

lemma aligned_2p20: "aligned 1048576 = 1048592"
  by (simp add: aligned_def round_up_power_of_two_def u64_def MEM_UNIT_def METADATA_OFFSET_def
      sizeof_footer_t_def MIN_ALLOC_def sizeof_header_t_def)

lemma round_up_2p20_U: "round_up_power_of_two 1048592 131072 = 1179648"
  by (simp add: round_up_power_of_two_def u64_def)

lemma bucket_index_1048592: "bucket_index_from_size 1048592 = Some 138"
  by (simp add: bucket_index_from_size_def MEM_UNIT_def bucket_index_loop.simps)

lemma post8_empty:
  assumes "layout E a" "j < 166" "j \<noteq> 134"
  shows "size_at (post8 E a e) (next_at (post8 E a e) (bucket E j)) = 0"
proof -
  note b = mem_base_bucket [OF assms(1,2), of e]
  note h = heap_bucket_ne [OF assms(1,2)]
  have n: "next_at (post8 E a e) (bucket E j) = bucket E j"
    using assms(3) by (simp add: post8_def next_at_def b h bucket_cell_eq)
  show ?thesis unfolding n
    using assms(3) by (simp add: post8_def size_at_def b h bucket_cell_eq)
qed

lemma post8_errno: "(post8 E a e)\<lparr>errno := e'\<rparr> = post8 E a e'"
  by (rule state_eqI) (simp_all add: post8_def base_def)

lemma realloc_fail_post8:
  assumes "layout E a" "mmap E 1179648 = None"
  shows "my_realloc E (post8 E a e) (a + 8) 1048576 = Some (post_release E a ENOMEM, NULL)"
proof -
  note l = layoutD [OF assms(1)]
  note h = heap_bucket_ne [OF assms(1)] bucket_cell_eq
  note bb = mem_base_bucket [OF assms(1)] mem_base_heap
  have i: "initialized (post8 E a e)" by (simp add: post8_def)
  have "get_block_from_buckets_loop E (post8 E a e) 138 1048592
      = get_block_from_buckets_loop E (post8 E a e) 166 1048592"
    by (rule get_block_from_buckets_loop_skip) (simp_all add: post8_empty [OF assms(1)])
  then have scan: "get_block_from_buckets E (post8 E a e) 1048592 = Some (post8 E a e, NULL)"
    by (simp add: get_block_from_buckets_def bucket_index_1048592 get_block_from_buckets_loop_end)
  have os: "get_block_from_os E (post8 E a e) 1048592 = Some (post8 E a ENOMEM, NULL)"
    using l(1) assms(2)
    by (simp add: get_block_from_os_def MMAP_UNIT_def round_up_2p20_U get_mapping_def post8_errno)
  have mal: "my_malloc E (post8 E a e) 1048576 = Some (post8 E a ENOMEM, NULL)"
    by (simp add: my_malloc_def aligned_2p20 i scan os)
  have old: "size_at (post8 E a e) a = 32"
    by (simp add: post8_def size_at_def h)
  show ?thesis
    using l(2,3)
    by (simp add: my_realloc_def eval_consts del: One_nat_def)
       (simp add: old [unfolded size_at_def] mal [unfolded NULL_def] free_post8 [OF assms(1)] sub64_def)
qed

lemma registry_full_malloc:
  assumes "layout E a" "mmap E 131072 = Some a"
  shows "my_malloc E ((initialize_buckets E cold)\<lparr>mapping_index := 2 ^ 15\<rparr>) 8
         = Some (zero_fill ((initialize_buckets E cold)\<lparr>mapping_index := 2 ^ 15\<rparr>) a 131072, NULL)"
proof -
  let ?s = "(initialize_buckets E cold)\<lparr>mapping_index := 2 ^ 15\<rparr>"
  note l = layoutD [OF assms(1)]
  have e: "size_at ((initialize_buckets E cold)\<lparr>mapping_index := n\<rparr>)
             (next_at ((initialize_buckets E cold)\<lparr>mapping_index := n\<rparr>) (bucket E j)) = 0"
    if "j < 166" for j n
    using init_empty [OF that, of E cold] by (simp add: size_at_def next_at_def)
  have "get_block_from_buckets_loop E ?s 4 32 = get_block_from_buckets_loop E ?s 166 32"
    by (rule get_block_from_buckets_loop_skip) (simp_all add: e)
  then have scan: "get_block_from_buckets E ?s 32 = Some (?s, NULL)"
    by (simp add: get_block_from_buckets_def bucket_index_32 get_block_from_buckets_loop_end)
  have os: "get_block_from_os E ?s 32 = Some (zero_fill ?s a 131072, NULL)"
    using l assms(2)
    by (simp add: get_block_from_os_def MMAP_UNIT_def round_up_32_U get_mapping_def
        LOG2_NUM_MAPPINGS_def NULL_def Let_def)
  show ?thesis
    using scan os by (simp add: my_malloc_def aligned_8)
qed

lemma layout_grant: "layout env_grant 1048576" "layout env_refuse 1048576"
  by (simp_all add: layout_def env_grant_def env_refuse_def)

lemma mmap_grant: "mmap env_grant n = Some 1048576" "mmap env_refuse n = None"
  by (simp_all add: env_grant_def env_refuse_def)

lemma bucket_env: "buckets_addr E = buckets_addr E' \<Longrightarrow> bucket E i = bucket E' i"
  by (simp add: bucket_def)

lemma base_env: "buckets_addr E = buckets_addr E' \<Longrightarrow> base E a e = base E' a e"
  by (rule state_eqI) (simp_all add: base_def mem_initialize_buckets)

lemma post8_env: "buckets_addr E = buckets_addr E' \<Longrightarrow> post8 E a e = post8 E' a e"
  by (simp add: post8_def base_env [of E E'] bucket_env [of E E'])

lemma post_release_env: "buckets_addr E = buckets_addr E' \<Longrightarrow> post_release E a e = post_release E' a e"
  by (simp add: post_release_def base_env [of E E'] bucket_env [of E E'])

lemma refuse_grant [simp]: "buckets_addr env_refuse = buckets_addr env_grant"
  by (simp add: env_grant_def env_refuse_def)

lemma post8_facts:
  assumes "layout E a"
  shows "size_at (post8 E a e) a = 32" "\<not> free_at (post8 E a e) a" "mem (post8 E a e) (a + 24) = 32"
    "size_at (post8 E a e) (a + 32) = 131040" "free_at (post8 E a e) (a + 32)"
    "mem (post8 E a e) (a + 131064) = 131040"
    "next_at (post8 E a e) (bucket E 134) = a + 32" "next_at (post8 E a e) (a + 32) = bucket E 134"
    "prev_at (post8 E a e) (bucket E 134) = a + 32" "prev_at (post8 E a e) (a + 32) = bucket E 134"
    "mappings (post8 E a e) 0 = (a, a + 131072)" "mapping_index (post8 E a e) = 1"
    "mapping_at (post8 E a e) a = 0" "mapping_at (post8 E a e) (a + 32) = 0"
    "mem (post8 E a e) (a + 8) = 0"
  using heap_bucket_ne [OF assms] mem_base_heap [where E = E and a = a and e = e]
  by (simp_all add: post8_def field_defs bucket_cell_eq)

text \<open>
  C2, as stated, fails: on the cold allocator \<^verbatim>\<open>malloc_(8)\<close> returns a block of total size 32,
  not 24, because \<^verbatim>\<open>MIN_ALLOC\<close> is \<^verbatim>\<open>sizeof (header_t) + sizeof (footer_t)\<close> = 24 + 8.
\<close>

theorem cold_acquire_8_counterexample:
  "my_malloc env_grant cold 8 = Some (post8 env_grant 1048576 0, 1048584) \<and>
   size_at (post8 env_grant 1048576 0) (sub64 1048584 METADATA_OFFSET) = 32 \<and> (32::nat) \<noteq> 24"
  using cold_malloc_8 [OF layout_grant(1) mmap_grant(1)] post8_facts(1) [OF layout_grant(1), of 0]
  by (simp add: sub64_def METADATA_OFFSET_def)

text \<open>
  C2 (amended): on a cold allocator, with page size 4096 and \<^verbatim>\<open>MMAP_UNIT\<close> 131072, \<^verbatim>\<open>malloc_(8)\<close>
  returns \<open>a + 8\<close> for the mapping address \<open>a\<close>; the block at \<open>a\<close> has total size 32
  (header and footer agree) and is not free; the tail at \<open>a + 32\<close> is a free block of
  \<open>131072 - 32\<close> bytes reaching to the end of the mapping, and it is the only member of
  bucket 134, the bucket of its size class.
\<close>

theorem cold_acquire_8:
  assumes "layout E a" "mmap E 131072 = Some a"
  shows "\<exists>s'. my_malloc E cold 8 = Some (s', a + 8) \<and> MMAP_UNIT E = 131072 \<and>
     size_at s' a = 32 \<and> mem s' (a + 24) = 32 \<and> \<not> free_at s' a \<and>
     size_at s' (a + 32) = 131072 - 32 \<and> mem s' (a + 131064) = 131072 - 32 \<and>
     free_at s' (a + 32) \<and> mappings s' 0 = (a, a + 131072) \<and>
     bucket_index_from_size (131072 - 32) = Some 134 \<and>
     next_at s' (bucket E 134) = a + 32 \<and> next_at s' (a + 32) = bucket E 134 \<and>
     prev_at s' (bucket E 134) = a + 32 \<and> prev_at s' (a + 32) = bucket E 134"
  using cold_malloc_8 [OF assms] post8_facts [OF assms(1), of 0] layoutD(1) [OF assms(1)]
  by (simp add: MMAP_UNIT_def bucket_index_131040)

theorem cold_acquire_8_witness:
  "layout env_grant 1048576 \<and> mmap env_grant 131072 = Some 1048576 \<and>
   (\<exists>s'. my_malloc env_grant cold 8 = Some (s', 1048576 + 8) \<and> MMAP_UNIT env_grant = 131072 \<and>
     size_at s' 1048576 = 32 \<and> mem s' (1048576 + 24) = 32 \<and> \<not> free_at s' 1048576 \<and>
     size_at s' (1048576 + 32) = 131072 - 32 \<and> mem s' (1048576 + 131064) = 131072 - 32 \<and>
     free_at s' (1048576 + 32) \<and> mappings s' 0 = (1048576, 1048576 + 131072) \<and>
     bucket_index_from_size (131072 - 32) = Some 134 \<and>
     next_at s' (bucket env_grant 134) = 1048576 + 32 \<and> next_at s' (1048576 + 32) = bucket env_grant 134 \<and>
     prev_at s' (bucket env_grant 134) = 1048576 + 32 \<and> prev_at s' (1048576 + 32) = bucket env_grant 134)"
  by (intro conjI layout_grant(1) mmap_grant(1) cold_acquire_8 [OF layout_grant(1) mmap_grant(1)])

lemma post_release_facts:
  assumes "layout E a"
  shows "size_at (post_release E a e) a = 131072" "free_at (post_release E a e) a"
    "mem (post_release E a e) (a + 131064) = 131072"
    "mappings (post_release E a e) 0 = (a, a + 131072)"
    "next_at (post_release E a e) (bucket E 135) = a" "next_at (post_release E a e) a = bucket E 135"
    "prev_at (post_release E a e) (bucket E 135) = a" "prev_at (post_release E a e) a = bucket E 135"
    "mem (post_release E a e) (a + 8) = bucket E 135" "errno (post_release E a e) = e"
  using heap_bucket_ne [OF assms] mem_base_heap [where E = E and a = a and e = e]
  by (simp_all add: post_release_def field_defs bucket_cell_eq)

lemma post_reacquire_facts:
  assumes "layout E a"
  shows "size_at (post_reacquire E a e) a = 32" "\<not> free_at (post_reacquire E a e) a"
    "size_at (post_reacquire E a e) (a + 32) = 131040" "free_at (post_reacquire E a e) (a + 32)"
    "next_at (post_reacquire E a e) (bucket E 134) = a + 32"
    "next_at (post_reacquire E a e) (a + 32) = bucket E 134"
  using heap_bucket_ne [OF assms] mem_base_heap [where E = E and a = a and e = e]
  by (simp_all add: post_reacquire_def field_defs bucket_cell_eq)

lemma post_reacquire_env: "buckets_addr E = buckets_addr E' \<Longrightarrow> post_reacquire E a e = post_reacquire E' a e"
  by (simp add: post_reacquire_def base_env [of E E'] bucket_env [of E E'])

lemma post_release_rings:
  assumes "layout E a"
  shows "mapping_index (post_release E a e) = 1"
    "next_at (post_release E a e) (bucket E 4) = bucket E 4"
    "prev_at (post_release E a e) (bucket E 4) = bucket E 4"
    "next_at (post_release E a e) (bucket E 134) = bucket E 134"
    "prev_at (post_release E a e) (bucket E 134) = bucket E 134"
  using heap_bucket_ne [OF assms] mem_base_heap [where E = E and a = a and e = e]
  by (simp_all add: post_release_def field_defs bucket_cell_eq)

lemma post_reacquire_rings:
  assumes "layout E a"
  shows "mapping_index (post_reacquire E a e) = 1" "mappings (post_reacquire E a e) 0 = (a, a + 131072)"
    "mem (post_reacquire E a e) (a + 24) = 32" "mem (post_reacquire E a e) (a + 131064) = 131040"
    "prev_at (post_reacquire E a e) (bucket E 134) = a + 32"
    "prev_at (post_reacquire E a e) (a + 32) = bucket E 134"
    "next_at (post_reacquire E a e) (bucket E 135) = bucket E 135"
    "prev_at (post_reacquire E a e) (bucket E 135) = bucket E 135"
    "next_at (post_reacquire E a e) (bucket E 4) = bucket E 4"
    "prev_at (post_reacquire E a e) (bucket E 4) = bucket E 4"
  using heap_bucket_ne [OF assms] mem_base_heap [where E = E and a = a and e = e]
  by (simp_all add: post_reacquire_def field_defs bucket_cell_eq)

lemma malloc_post_release_any:
  assumes "layout E a"
  shows "my_malloc (E\<lparr>mmap := f\<rparr>) (post_release E a e) 8 = Some (post_reacquire E a e, a + 8)"
proof -
  have l: "layout (E\<lparr>mmap := f\<rparr>) a" using assms by (simp add: layout_def)
  from malloc_post_release [OF l, of e] show ?thesis
    by (simp add: post_release_env [of "E\<lparr>mmap := f\<rparr>" E] post_reacquire_env [of "E\<lparr>mmap := f\<rparr>" E])
qed

text \<open>
  C9: on a cold allocator, \<open>p := malloc_(8)\<close>, \<open>free_(p)\<close>, \<open>q := malloc_(8)\<close> gives \<open>q = p\<close>.
  After the release the block at the mapping address \<open>a\<close> is free, has the size of the whole
  mapping and is the only member of bucket 135, while buckets 4 and 134 are empty.  The second
  acquire takes that block out of bucket 135 and splits it again at \<open>a\<close> into the block of 32
  bytes and the free tail, the only member of bucket 134; it does so without the page source,
  which may refuse every request, and the registry still holds the one mapping.
\<close>

theorem acquire_release_acquire:
  assumes "layout E a" "mmap E 131072 = Some a"
  shows "\<exists>s1 s2 s3 p q.
     my_malloc E cold 8 = Some (s1, p) \<and> my_free E s1 p = Some s2 \<and>
     my_malloc E s2 8 = Some (s3, q) \<and> my_malloc (E\<lparr>mmap := (\<lambda>n. None)\<rparr>) s2 8 = Some (s3, q) \<and>
     q = p \<and> p = a + 8 \<and>
     mapping_index s2 = 1 \<and> mappings s2 0 = (a, a + 131072) \<and>
     size_at s2 a = 131072 \<and> mem s2 (a + 131064) = 131072 \<and> free_at s2 a \<and>
     bucket_index_from_size 131072 = Some 135 \<and>
     next_at s2 (bucket E 135) = a \<and> next_at s2 a = bucket E 135 \<and>
     prev_at s2 (bucket E 135) = a \<and> prev_at s2 a = bucket E 135 \<and>
     next_at s2 (bucket E 4) = bucket E 4 \<and> prev_at s2 (bucket E 4) = bucket E 4 \<and>
     next_at s2 (bucket E 134) = bucket E 134 \<and> prev_at s2 (bucket E 134) = bucket E 134 \<and>
     mapping_index s3 = 1 \<and> mappings s3 0 = (a, a + 131072) \<and>
     size_at s3 a = 32 \<and> mem s3 (a + 24) = 32 \<and> \<not> free_at s3 a \<and>
     size_at s3 (a + 32) = 131040 \<and> mem s3 (a + 131064) = 131040 \<and> free_at s3 (a + 32) \<and>
     next_at s3 (bucket E 135) = bucket E 135 \<and> prev_at s3 (bucket E 135) = bucket E 135 \<and>
     next_at s3 (bucket E 134) = a + 32 \<and> next_at s3 (a + 32) = bucket E 134 \<and>
     prev_at s3 (bucket E 134) = a + 32 \<and> prev_at s3 (a + 32) = bucket E 134 \<and>
     next_at s3 (bucket E 4) = bucket E 4 \<and> prev_at s3 (bucket E 4) = bucket E 4"
proof -
  note l = assms(1)
  have 1: "my_malloc E cold 8 = Some (post8 E a 0, a + 8)" by (rule cold_malloc_8 [OF assms])
  have 2: "my_free E (post8 E a 0) (a + 8) = Some (post_release E a 0)" by (rule free_post8 [OF l])
  have 3: "my_malloc E (post_release E a 0) 8 = Some (post_reacquire E a 0, a + 8)"
    by (rule malloc_post_release [OF l])
  have 4: "my_malloc (E\<lparr>mmap := (\<lambda>n. None)\<rparr>) (post_release E a 0) 8 = Some (post_reacquire E a 0, a + 8)"
    by (rule malloc_post_release_any [OF l])
  note f2 = post_release_facts(1-8) [OF l, of 0] post_release_rings [OF l, of 0]
  note f3 = post_reacquire_facts [OF l, of 0] post_reacquire_rings [OF l, of 0]
  show ?thesis
    apply (rule exI [of _ "post8 E a 0"])
    apply (rule exI [of _ "post_release E a 0"])
    apply (rule exI [of _ "post_reacquire E a 0"])
    apply (rule exI [of _ "a + 8"])
    apply (rule exI [of _ "a + 8"])
    apply (intro conjI 1 2 3 4 refl f2 f3 bucket_index_131072)
    done
qed

theorem acquire_release_acquire_witness:
  "layout env_grant 1048576 \<and> mmap env_grant 131072 = Some 1048576 \<and>
   (\<exists>s2 s3. my_malloc env_grant cold 8 = Some (post8 env_grant 1048576 0, 1048576 + 8) \<and>
     my_free env_grant (post8 env_grant 1048576 0) (1048576 + 8) = Some s2 \<and>
     my_malloc (env_grant\<lparr>mmap := (\<lambda>n. None)\<rparr>) s2 8 = Some (s3, 1048576 + 8) \<and>
     mapping_index s3 = 1 \<and> size_at s3 1048576 = 32 \<and> \<not> free_at s3 1048576 \<and>
     next_at s3 (bucket env_grant 135) = bucket env_grant 135 \<and>
     next_at s3 (bucket env_grant 134) = 1048576 + 32)"
proof -
  from acquire_release_acquire [OF layout_grant(1) mmap_grant(1)] obtain s1 s2 s3 p q where
    h: "my_malloc env_grant cold 8 = Some (s1, p)" "my_free env_grant s1 p = Some s2"
      "my_malloc (env_grant\<lparr>mmap := (\<lambda>n. None)\<rparr>) s2 8 = Some (s3, q)" "q = p" "p = 1048576 + 8"
      "mapping_index s3 = 1" "size_at s3 1048576 = 32" "\<not> free_at s3 1048576"
      "next_at s3 (bucket env_grant 135) = bucket env_grant 135"
      "next_at s3 (bucket env_grant 134) = 1048576 + 32"
    by blast
  have "s1 = post8 env_grant 1048576 0"
    using h(1) cold_malloc_8 [OF layout_grant(1) mmap_grant(1)] by simp
  with h show ?thesis using layout_grant(1) mmap_grant(1) [of 131072] by blast
qed

text \<open>
  C1: the code does not do what the claim says.  A block is acquired on the cold allocator;
  its resize to \<open>2 ^ 20\<close> bytes, with a page source that refuses, returns the null pointer
  with \<^verbatim>\<open>errno\<close> \<^verbatim>\<open>ENOMEM\<close>, and the original block has been released all the same: it is free,
  merged with the tail into a block of 131072 bytes, and its first payload cell now holds a
  bucket link.
\<close>

theorem realloc_failure_releases:
  "my_malloc env_grant cold 8 = Some (post8 env_grant 1048576 0, 1048584) \<and>
   my_realloc env_refuse (post8 env_grant 1048576 0) 1048584 1048576
     = Some (post_release env_grant 1048576 ENOMEM, NULL) \<and>
   \<not> free_at (post8 env_grant 1048576 0) 1048576 \<and>
   free_at (post_release env_grant 1048576 ENOMEM) 1048576 \<and>
   size_at (post_release env_grant 1048576 ENOMEM) 1048576 = 131072 \<and>
   mem (post8 env_grant 1048576 0) 1048584 = 0 \<and>
   mem (post_release env_grant 1048576 ENOMEM) 1048584 = bucket env_grant 135 \<and>
   bucket env_grant 135 \<noteq> 0"
  using cold_malloc_8 [OF layout_grant(1) mmap_grant(1)]
    realloc_fail_post8 [OF layout_grant(2) mmap_grant(2), of 0]
    post8_facts(2,15) [OF layout_grant(1), of 0]
    post_release_facts(1,2,9) [OF layout_grant(1), of ENOMEM]
  by (simp add: post8_env [of env_refuse env_grant] post_release_env [of env_refuse env_grant])
     (simp add: bucket_def env_grant_def)

lemma post_shrink_facts:
  assumes "layout E a"
  shows "free_at (post_shrink E a e) (a + 32)" "size_at (post_shrink E a e) (a + 32) = 88"
    "free_at (post_shrink E a e) (a + 120)" "size_at (post_shrink E a e) (a + 120) = 130952"
    "mapping_at (post_shrink E a e) (a + 32) = 0" "mapping_at (post_shrink E a e) (a + 120) = 0"
    "mappings (post_shrink E a e) 0 = (a, a + 131072)"
  using heap_bucket_ne [OF assms] mem_base_heap [where E = E and a = a and e = e]
  by (simp_all add: post_shrink_def field_defs bucket_cell_eq)

text \<open>
  C8: the code does not keep the invariant.  On the cold allocator \<open>p := malloc_(100)\<close> and then
  \<^verbatim>\<open>realloc_(p, 8)\<close>, which shrinks in place: the tail of 88 bytes split off at \<open>a + 32\<close> is
  inserted as a free block and is not merged with the free block that follows it at
  \<open>a + 120\<close> in the same mapping.
\<close>

theorem shrink_leaves_adjacent_free_blocks:
  "my_malloc env_grant cold 100 = Some (post100 env_grant 1048576 0, 1048584) \<and>
   my_realloc env_grant (post100 env_grant 1048576 0) 1048584 8
     = Some (post_shrink env_grant 1048576 0, 1048584) \<and>
   free_at (post_shrink env_grant 1048576 0) 1048608 \<and>
   size_at (post_shrink env_grant 1048576 0) 1048608 = 88 \<and>
   add64 1048608 88 = 1048696 \<and>
   free_at (post_shrink env_grant 1048576 0) 1048696 \<and>
   size_at (post_shrink env_grant 1048576 0) 1048696 = 130952 \<and>
   mapping_at (post_shrink env_grant 1048576 0) 1048608 = 0 \<and>
   mapping_at (post_shrink env_grant 1048576 0) 1048696 = 0 \<and>
   mappings (post_shrink env_grant 1048576 0) 0 = (1048576, 1179648)"
  using cold_malloc_100 [OF layout_grant(1) mmap_grant(1)]
    realloc_shrink_post100 [OF layout_grant(1), of 0] post_shrink_facts [OF layout_grant(1), of 0]
  by (simp add: add64_def)

text \<open>
  C3: the code does not set \<^verbatim>\<open>errno\<close> when the registry is full.  With \<open>2 ^ 15\<close> mappings
  registered, no free block and a page source that grants the request, \<^verbatim>\<open>malloc_(8)\<close> returns
  the null pointer and \<^verbatim>\<open>errno\<close> keeps its value 0.
\<close>

theorem registry_full_keeps_errno:
  "my_malloc env_grant ((initialize_buckets env_grant cold)\<lparr>mapping_index := 2 ^ 15\<rparr>) 8
     = Some (zero_fill ((initialize_buckets env_grant cold)\<lparr>mapping_index := 2 ^ 15\<rparr>) 1048576 131072, NULL) \<and>
   errno (zero_fill ((initialize_buckets env_grant cold)\<lparr>mapping_index := 2 ^ 15\<rparr>) 1048576 131072) = 0 \<and>
   ENOMEM \<noteq> 0"
  using registry_full_malloc [OF layout_grant(1) mmap_grant(1)]
  by (simp add: ENOMEM_def)

section \<open>Claims on the heap invariant\<close>

lemma post8_cells:
  assumes "layout E a"
  shows "mem (post8 E a e) a = 32" "mem (post8 E a e) (a + 24) = 32"
    "mem (post8 E a e) (a + 32) = 131040 + 2 ^ 63" "mem (post8 E a e) (a + 40) = bucket E 134"
    "mem (post8 E a e) (a + 48) = bucket E 134" "mem (post8 E a e) (a + 131064) = 131040"
    "mem (post8 E a e) (bucket E 134 + 8) = a + 32" "mem (post8 E a e) (bucket E 134 + 16) = a + 32"
    "j < 166 \<Longrightarrow> mem (post8 E a e) (bucket E j) = 0"
    "j < 166 \<Longrightarrow> j \<noteq> 134 \<Longrightarrow> mem (post8 E a e) (bucket E j + 8) = bucket E j"
    "j < 166 \<Longrightarrow> j \<noteq> 134 \<Longrightarrow> mem (post8 E a e) (bucket E j + 16) = bucket E j"
proof -
  note h = heap_bucket_ne [OF assms] bucket_cell_eq
  note bb = mem_base_bucket [OF assms] mem_base_heap
  show "mem (post8 E a e) a = 32" "mem (post8 E a e) (a + 24) = 32"
    "mem (post8 E a e) (a + 32) = 131040 + 2 ^ 63" "mem (post8 E a e) (a + 40) = bucket E 134"
    "mem (post8 E a e) (a + 48) = bucket E 134" "mem (post8 E a e) (a + 131064) = 131040"
    "mem (post8 E a e) (bucket E 134 + 8) = a + 32" "mem (post8 E a e) (bucket E 134 + 16) = a + 32"
    by (simp_all add: post8_def h bb del: One_nat_def)
  show "j < 166 \<Longrightarrow> mem (post8 E a e) (bucket E j) = 0"
    "j < 166 \<Longrightarrow> j \<noteq> 134 \<Longrightarrow> mem (post8 E a e) (bucket E j + 8) = bucket E j"
    "j < 166 \<Longrightarrow> j \<noteq> 134 \<Longrightarrow> mem (post8 E a e) (bucket E j + 16) = bucket E j"
    by (simp_all add: post8_def h bb del: One_nat_def)
qed

lemma post8_inv:
  assumes l: "layout E a" and top: "a + 131072 \<le> 2 ^ 48"
  shows "heap_inv E (post8 E a e) (post8_buckets a) (post8_blocks a)"
proof -
  let ?s = "post8 E a e"
  note c0 = post8_cells [OF l, where e = e]
  note c = c0 c0(2-6) [unfolded add.commute [of a]]
  have f: "initialized ?s" "mapping_index ?s = 1" "mappings ?s 0 = (a, a + 131072)"
    by (simp_all add: post8_def)
  have la: "0 < a" "a + 131072 \<le> buckets_addr E \<or> buckets_addr E + 3984 \<le> a"
    using l by (simp_all add: layout_def)
  have r: "registry_ok E ?s" using la top by (simp add: registry_ok_def f)
  have t: "tiled ?s (post8_blocks a)"
    by (simp add: tiled_def f post8_blocks_def block_ok_def size_at_def mapping_at_def c)
  have ring: "bucket_ring E ?s j (post8_buckets a j)" if "j < 166" for j
    using that c0(9-11) [where j = j]
    by (simp add: bucket_ring_def post8_buckets_def size_at_def next_at_def prev_at_def c)
  have ix: "bucket_index_from_size (size_at ?s (a + 32)) = Some 134"
    by (simp add: size_at_def c bucket_index_131040)
  have ok: "buckets_ok E ?s (post8_buckets a)"
    unfolding buckets_ok_def using ring ix by (auto simp: post8_buckets_def)
  have n: "nodes (post8_buckets a) = {a + 32}" by (auto simp: nodes_def post8_buckets_def)
  have b: "blocks ?s (post8_blocks a) = {a, a + 32}" by (auto simp: blocks_def f post8_blocks_def)
  have fl: "\<not> free_at ?s a" "free_at ?s (a + 32)" by (simp_all add: free_at_def c)
  show ?thesis unfolding heap_inv_def
    by (rule heap_inv_butI) (use f r t ok fl in \<open>auto simp: n b\<close>)
qed


text \<open>
  The search below the undefined shift: in a state that satisfies the heap invariant, for every
  aligned size \<open>sz\<close> with \<open>32 \<le> sz < 2 ^ 63\<close>, \<^verbatim>\<open>get_block_from_buckets\<close> returns the null
  pointer and leaves the state as it is when no bucket holds a member of size at least \<open>sz\<close>.  Otherwise bucket \<open>i\<close> is the
  first bucket, from index \<^verbatim>\<open>bucket_index_from_size(sz)\<close> on, that has such a member; the block
  \<open>b\<close> returned is the first such member of that bucket in list order, of least size among
  the members that fit; and in the resulting state \<open>b\<close> is in no bucket, while the invariant
  holds for all other blocks.
\<close>

lemma first_fit:
  assumes "heap_inv E s L T" "32 \<le> sz" "sz < 2 ^ 63"
  shows "if \<forall>b \<in> nodes L. size_at s b < sz
         then get_block_from_buckets E s sz = Some (s, NULL)
         else \<exists>i0 i b rest s' L' T'.
                bucket_index_from_size sz = Some i0 \<and> i0 \<le> i \<and> i < 166 \<and>
                (\<forall>j < i. \<forall>x \<in> set (L j). size_at s x < sz) \<and>
                dropWhile (\<lambda>x. size_at s x < sz) (L i) = b # rest \<and>
                (\<forall>x \<in> set (L i). sz \<le> size_at s x \<longrightarrow> size_at s b \<le> size_at s x) \<and>
                get_block_from_buckets E s sz = Some (s', b) \<and> b \<noteq> NULL \<and>
                heap_inv_but {b} E s' L' T' \<and> b \<notin> nodes L'"
proof (cases "\<forall>b \<in> nodes L. size_at s b < sz")
  case True
  then show ?thesis using get_block_from_buckets_none [OF assms(1,3)] by simp
next
  case False
  then have "\<exists>b \<in> nodes L. sz \<le> size_at s b" by (auto simp: not_less)
  from get_block_from_buckets_some [OF assms this] obtain i0 i b rest s' L' T' where
    h: "bucket_index_from_size sz = Some i0" "i0 \<le> i" "i < 166"
      "\<forall>j < i. \<forall>x \<in> set (L j). size_at s x < sz"
      "dropWhile (\<lambda>x. size_at s x < sz) (L i) = b # rest"
      "\<forall>x \<in> set (L i). sz \<le> size_at s x \<longrightarrow> size_at s b \<le> size_at s x"
      "get_block_from_buckets E s sz = Some (s', b)" "b \<noteq> NULL"
      "heap_inv_but {b} E s' L' T'" by blast
  have "b \<notin> nodes L'" using heap_inv_butD(5) [OF h(9)] by auto
  with h False show ?thesis by (simp only: if_False) blast
qed

lemma layout_grant_48: "layout env_grant 1048576" "(1048576::nat) + 131072 \<le> 2 ^ 48"
  by (simp_all add: layout_def env_grant_def)

lemma first_fit_post8:
  "heap_inv env_grant (post8 env_grant 1048576 0) (post8_buckets 1048576) (post8_blocks 1048576) \<and>
   (32::nat) \<le> 32 \<and> (32::nat) < 2 ^ 63 \<and>
   (\<exists>s'. get_block_from_buckets env_grant (post8 env_grant 1048576 0) 32 = Some (s', 1048608))"
proof -
  let ?s = "post8 env_grant 1048576 0"
  have inv: "heap_inv env_grant ?s (post8_buckets 1048576) (post8_blocks 1048576)"
    by (rule post8_inv [OF layout_grant_48])
  have h: "(32::nat) \<le> 32" "(32::nat) < 2 ^ 63" by simp_all
  have n: "nodes (post8_buckets 1048576) = {1048608}" by (auto simp: nodes_def post8_buckets_def)
  have z: "size_at ?s 1048608 = 131040"
    using post8_cells(3) [OF layout_grant_48(1), of 0] by (simp add: size_at_def)
  have "\<not> (\<forall>b \<in> nodes (post8_buckets 1048576). size_at ?s b < 32)" by (simp add: n z)
  with first_fit [OF inv h] obtain i b rest s' where
    "dropWhile (\<lambda>x. size_at ?s x < 32) (post8_buckets 1048576 i) = b # rest"
    "get_block_from_buckets env_grant ?s 32 = Some (s', b)"
    by (simp only: if_False) blast
  moreover from this(1) have "b = 1048608"
    by (cases "i = 134") (simp_all add: post8_buckets_def z)
  ultimately show ?thesis using inv by auto
qed

lemma aligned_2p63: "aligned (2 ^ 63 - 16) = 2 ^ 63"
  by (simp add: aligned_def round_up_power_of_two_def u64_def MEM_UNIT_def METADATA_OFFSET_def
      sizeof_footer_t_def MIN_ALLOC_def sizeof_header_t_def add64_def)

lemma bucket_index_2p63: "bucket_index_from_size (2 ^ 63) = None"
  by (simp add: bucket_index_from_size_def MEM_UNIT_def bucket_index_loop.simps)

lemma aligned_2p62: "aligned (2 ^ 62) = 4611686018427387920"
  by (simp add: aligned_def round_up_power_of_two_def u64_def MEM_UNIT_def METADATA_OFFSET_def
      sizeof_footer_t_def MIN_ALLOC_def sizeof_header_t_def add64_def)

lemma bucket_index_2p62: "bucket_index_from_size 4611686018427387920 = Some 180"
  by (simp add: bucket_index_from_size_def MEM_UNIT_def bucket_index_loop.simps)

lemma malloc_2p62:
  "my_malloc env_refuse cold (2 ^ 62) = Some ((initialize_buckets env_refuse cold)\<lparr>errno := ENOMEM\<rparr>, NULL)"
proof -
  have i: "\<not> initialized cold" by (simp add: cold_def)
  have g: "get_block_from_buckets env_refuse (initialize_buckets env_refuse cold) 4611686018427387920
         = Some (initialize_buckets env_refuse cold, NULL)"
    unfolding get_block_from_buckets_def bucket_index_2p62
    by (simp add: get_block_from_buckets_loop.simps NUM_BUCKETS_def)
  have r: "round_up_power_of_two 4611686018427387920 (MMAP_UNIT env_refuse) = 4611686018427518976"
    by (simp add: round_up_power_of_two_def MMAP_UNIT_def env_refuse_def u64_def)
  have o: "get_block_from_os env_refuse (initialize_buckets env_refuse cold) 4611686018427387920
         = Some ((initialize_buckets env_refuse cold)\<lparr>errno := ENOMEM\<rparr>, NULL)"
    unfolding get_block_from_os_def r Let_def
    by (simp add: get_mapping_def mmap_grant(2) NULL_def)
  show ?thesis
    unfolding my_malloc_def aligned_2p62 Let_def
    by (simp add: i g o)
qed

lemma aligned_max: "aligned (2 ^ 64 - 17) = 32"
  by (simp add: aligned_def round_up_power_of_two_def u64_def MEM_UNIT_def METADATA_OFFSET_def
      sizeof_footer_t_def MIN_ALLOC_def sizeof_header_t_def add64_def)

text \<open>
  C6: the code does not do what the claim says for every aligned size.  The request
  \<open>2 ^ 63 - 16\<close> passes the overflow guard of \<^verbatim>\<open>malloc_\<close> with aligned size \<open>2 ^ 63\<close>, for which the
  scan in \<^verbatim>\<open>bucket_index_from_size\<close> reaches a shift of the 64-bit size by 64 bits: the search
  through the buckets, and with it \<^verbatim>\<open>malloc_\<close>, has no defined result, in any state.  The
  requests next to that band do return the null pointer: \<open>2 ^ 62\<close> with \<^verbatim>\<open>ENOMEM\<close> when the
  page source refuses, \<open>2 ^ 64 - 17\<close> with \<^verbatim>\<open>EINVAL\<close>.
\<close>

theorem first_fit_undefined_shift:
  "aligned (2 ^ 63 - 16) = 2 ^ 63 \<and> bucket_index_from_size (2 ^ 63) = None \<and>
   get_block_from_buckets E s (2 ^ 63) = None \<and> my_malloc E s (2 ^ 63 - 16) = None \<and>
   my_malloc env_refuse cold (2 ^ 62)
     = Some ((initialize_buckets env_refuse cold)\<lparr>errno := ENOMEM\<rparr>, NULL) \<and>
   my_malloc E s (2 ^ 64 - 17) = Some (s\<lparr>errno := EINVAL\<rparr>, NULL)"
proof -
  have g: "get_block_from_buckets E t (2 ^ 63) = None" for t
    unfolding get_block_from_buckets_def bucket_index_2p63 by simp
  have m: "my_malloc E s (2 ^ 63 - 16) = None"
    unfolding my_malloc_def aligned_2p63 Let_def g Option.bind.simps by simp
  have x: "my_malloc E s (2 ^ 64 - 17) = Some (s\<lparr>errno := EINVAL\<rparr>, NULL)"
    unfolding my_malloc_def aligned_max Let_def by simp
  show ?thesis by (intro conjI aligned_2p63 bucket_index_2p63 g m malloc_2p62 x)
qed

lemma post8_allocated:
  assumes "layout E a"
  shows "a \<in> allocated (post8 E a e) (post8_blocks a)"
  using post8_facts(2,12) [OF assms, of e]
  by (auto simp: allocated_def blocks_def post8_blocks_def)

text \<open>
  C4 (amended): \<^verbatim>\<open>realloc_(p, 0)\<close> behaves as \<^verbatim>\<open>free_(p)\<close> followed by \<^verbatim>\<open>malloc_(0)\<close>.  For the
  null pointer it returns the null pointer and sets \<^verbatim>\<open>errno\<close> to \<^verbatim>\<open>EINVAL\<close>.  For the payload
  address \<open>b + 8\<close> of a block \<open>b\<close> in use, in a state that satisfies the heap invariant, it
  returns, with the null pointer as result and \<^verbatim>\<open>errno\<close> set to \<^verbatim>\<open>EINVAL\<close>; the state is the one
  \<^verbatim>\<open>free_\<close> leaves, in which the invariant holds, a free block covers the addresses of \<open>b\<close>, and
  every other block in use is still in use.
\<close>

theorem realloc_zero_size:
  assumes "heap_inv E s L T" "b \<in> allocated s T"
  shows "my_realloc E s NULL 0 = Some (s\<lparr>errno := EINVAL\<rparr>, NULL) \<and>
     (\<exists>s1 L' T'. my_free E s (b + 8) = Some s1 \<and>
        my_realloc E s (b + 8) 0 = Some (s1\<lparr>errno := EINVAL\<rparr>, NULL) \<and>
        heap_inv E s1 L' T' \<and>
        (\<exists>c \<in> blocks s1 T'. free_at s1 c \<and> c \<le> b \<and> b + size_at s b \<le> c + size_at s1 c) \<and>
        allocated s T - {b} \<subseteq> allocated s1 T')"
proof
  show "my_realloc E s NULL 0 = Some (s\<lparr>errno := EINVAL\<rparr>, NULL)"
    by (simp add: my_realloc_def my_free_def malloc_zero)
  from my_free_inv [OF assms] obtain s1 L' T' where
    f: "my_free E s (b + 8) = Some s1" "heap_inv E s1 L' T'"
      "allocated s T - {b} \<subseteq> allocated s1 T'"
      "\<exists>c \<in> blocks s1 T'. free_at s1 c \<and> c \<le> b \<and> b + size_at s b \<le> c + size_at s1 c"
    by blast
  have "my_realloc E s (b + 8) 0 = Some (s1\<lparr>errno := EINVAL\<rparr>, NULL)"
    by (simp add: my_realloc_def f(1) malloc_zero)
  with f show "\<exists>s1 L' T'. my_free E s (b + 8) = Some s1 \<and>
        my_realloc E s (b + 8) 0 = Some (s1\<lparr>errno := EINVAL\<rparr>, NULL) \<and>
        heap_inv E s1 L' T' \<and>
        (\<exists>c \<in> blocks s1 T'. free_at s1 c \<and> c \<le> b \<and> b + size_at s b \<le> c + size_at s1 c) \<and>
        allocated s T - {b} \<subseteq> allocated s1 T'"
    by blast
qed

theorem realloc_zero_size_witness:
  "heap_inv env_grant (post8 env_grant 1048576 0) (post8_buckets 1048576) (post8_blocks 1048576) \<and>
   1048576 \<in> allocated (post8 env_grant 1048576 0) (post8_blocks 1048576) \<and>
   my_realloc env_grant (post8 env_grant 1048576 0) (1048576 + 8) 0
     = Some ((post_release env_grant 1048576 0)\<lparr>errno := EINVAL\<rparr>, NULL) \<and>
   \<not> free_at (post8 env_grant 1048576 0) 1048576 \<and>
   free_at (post_release env_grant 1048576 0) 1048576 \<and>
   size_at (post_release env_grant 1048576 0) 1048576 = 131072"
proof -
  let ?s = "post8 env_grant 1048576 0"
  have inv: "heap_inv env_grant ?s (post8_buckets 1048576) (post8_blocks 1048576)"
    by (rule post8_inv [OF layout_grant_48])
  have al: "1048576 \<in> allocated ?s (post8_blocks 1048576)"
    by (rule post8_allocated [OF layout_grant_48(1)])
  from realloc_zero_size [OF inv al] obtain s1 where
    "my_free env_grant ?s (1048576 + 8) = Some s1"
    "my_realloc env_grant ?s (1048576 + 8) 0 = Some (s1\<lparr>errno := EINVAL\<rparr>, NULL)" by blast
  moreover have "my_free env_grant ?s (1048576 + 8) = Some (post_release env_grant 1048576 0)"
    by (rule free_post8 [OF layout_grant_48(1)])
  ultimately have "my_realloc env_grant ?s (1048576 + 8) 0
     = Some ((post_release env_grant 1048576 0)\<lparr>errno := EINVAL\<rparr>, NULL)" by simp
  then show ?thesis
    using inv al post8_facts(2) [OF layout_grant_48(1), of 0]
      post_release_facts(1,2) [OF layout_grant_48(1), of 0] by simp
qed

section \<open>The buckets after every facade call\<close>






end
